theory Spec2Isabelle
  imports Main
begin

section \<open>Configuration constants (main.py, lines 8-11)\<close>

definition BASE_URL :: string where
  "BASE_URL = ''https://news.ycombinator.com/''"

definition TOP_N :: nat where
  "TOP_N = 5"

definition CRAWL_INTERVAL :: nat where
  "CRAWL_INTERVAL = 300"

definition NEWS_DIR :: string where
  "NEWS_DIR = ''data''"

section \<open>Python values the program handles\<close>

text \<open>
  The exceptions that can leave a function of main.py. \<open>fetch\<close> catches every
  \<open>Exception\<close> of the transport itself, so those never appear here.
\<close>

datatype error =
    TypeError   \<comment> \<open>\<open>BeautifulSoup(None, ...)\<close>, \<open>os.path.join(NEWS_DIR, None)\<close>\<close>
  | KeyError    \<comment> \<open>\<open>tag['href']\<close> on a tag without that attribute\<close>
  | OSError     \<comment> \<open>\<open>os.makedirs\<close>, \<open>aiofiles.open\<close> or \<open>f.write\<close> failing\<close>
  | ParserRejectedMarkup  \<comment> \<open>\<open>BeautifulSoup(html, ...)\<close> on markup the parser rejects\<close>

text \<open>The lines the program prints, one constructor per \<open>print\<close> call of the source.\<close>

datatype msg =
    Error_while_getting_page string string    \<comment> \<open>url, text of the exception (line 20)\<close>
  | Failed_to_get_news string                 \<comment> \<open>line 51\<close>
  | No_links_found string                     \<comment> \<open>line 55\<close>
  | Links_found string nat                    \<comment> \<open>line 58\<close>
  | Failed_to_get_page "string option"        \<comment> \<open>line 86\<close>
  | Failed_to_download string                 \<comment> \<open>line 103\<close>
  | Main_page_parsing                         \<comment> \<open>line 110, the time stamp left out\<close>
  | Main_page_parsing_error                   \<comment> \<open>line 113\<close>
  | News_found nat                            \<comment> \<open>line 119\<close>
  | Downloading_news "string option" string   \<comment> \<open>line 121\<close>
  | No_unprocessed_news                       \<comment> \<open>line 126\<close>

text \<open>
  \<open>str(n)\<close> for a natural number, as the f-string of line 61 formats \<open>i + 1\<close>.
\<close>

definition digit_char :: "nat \<Rightarrow> char" where
  "digit_char d = char_of (48 + d)"

function str_nat :: "nat \<Rightarrow> string" where
  "str_nat n = (if n < 10 then [digit_char n] else str_nat (n div 10) @ [digit_char (n mod 10)])"
  by pat_completeness auto
termination
  by (relation "measure id") auto

text \<open>\<open>str(x)\<close> for a value that is a string or \<open>None\<close> (the f-string of line 67).\<close>

definition str_opt :: "string option \<Rightarrow> string" where
  "str_opt x = (case x of None \<Rightarrow> ''None'' | Some s \<Rightarrow> s)"

text \<open>\<open>s.startswith(p)\<close>.\<close>

definition startswith :: "string \<Rightarrow> string \<Rightarrow> bool" where
  "startswith s p = (take (length p) s = p)"

text \<open>\<open>os.path.join(a, b)\<close> for two components, as \<open>posixpath\<close> computes it.\<close>

definition os_path_join :: "string \<Rightarrow> string \<Rightarrow> string" where
  "os_path_join a b =
     (if startswith b ''/'' then b
      else if a = [] \<or> last a = CHR ''/'' then a @ b
      else a @ ''/'' @ b)"

section \<open>The parsed document (what BeautifulSoup builds)\<close>

text \<open>
  A document is a tree of tags and text nodes. A tag has a name, its attribute
  dictionary (an association list, looked up with \<open>map_of\<close>) and its children in
  document order. The root that \<open>BeautifulSoup(...)\<close> returns is itself a tag.
\<close>

datatype node =
    Tag (tag_name: string) (tag_attrs: "(string \<times> string) list") (tag_contents: "node list")
  | NavigableString string

fun descendants :: "node \<Rightarrow> node list" where
  "descendants (NavigableString s) = []"
| "descendants (Tag n as cs) = concat (map (\<lambda>c. c # descendants c) cs)"

text \<open>\<open>tag.get(key)\<close>: the attribute's value, or \<open>None\<close>.\<close>

fun tag_get :: "node \<Rightarrow> string \<Rightarrow> string option" where
  "tag_get (Tag n as cs) key = map_of as key"
| "tag_get (NavigableString s) key = None"

text \<open>\<open>tag[key]\<close>: the attribute's value, or \<open>KeyError\<close>.\<close>

definition tag_getitem :: "node \<Rightarrow> string \<Rightarrow> error + string" where
  "tag_getitem t key = (case tag_get t key of None \<Rightarrow> Inl KeyError | Some v \<Rightarrow> Inr v)"

text \<open>
  The \<open>class\<close> attribute is a whitespace-separated list of class names; a class
  selector matches a tag when the name is one of them.
\<close>

definition is_space :: "char \<Rightarrow> bool" where
  "is_space c = (c \<in> set [CHR '' '', CHR 0x09, CHR 0x0A, CHR 0x0C, CHR 0x0D])"

fun split_ws :: "string \<Rightarrow> string \<Rightarrow> string list" where
  "split_ws cur [] = (if cur = [] then [] else [cur])"
| "split_ws cur (c # cs) =
     (if is_space c then (if cur = [] then [] else [cur]) @ split_ws [] cs
      else split_ws (cur @ [c]) cs)"

definition has_class :: "node \<Rightarrow> string \<Rightarrow> bool" where
  "has_class t cls =
     (case tag_get t ''class'' of None \<Rightarrow> False | Some v \<Rightarrow> cls \<in> set (split_ws [] v))"

fun is_tag :: "node \<Rightarrow> string \<Rightarrow> bool" where
  "is_tag (Tag n as cs) name = (n = name)"
| "is_tag (NavigableString s) name = False"

text \<open>\<open>soup.select("tr.athing")\<close>: every \<open>tr\<close> tag of class \<open>athing\<close>, in document order.\<close>

definition select_tr_athing :: "node \<Rightarrow> node list" where
  "select_tr_athing soup =
     filter (\<lambda>t. is_tag t ''tr'' \<and> has_class t ''athing'') (descendants soup)"

text \<open>
  \<open>tag.find(name)\<close> and \<open>tag.find(name, class_=cls)\<close>: the first descendant tag
  that matches, or \<open>None\<close>.
\<close>

definition find_tag :: "node \<Rightarrow> string \<Rightarrow> string option \<Rightarrow> node option" where
  "find_tag t name klass =
     (case filter (\<lambda>d. is_tag d name \<and> (case klass of None \<Rightarrow> True | Some cls \<Rightarrow> has_class d cls))
             (descendants t) of
        [] \<Rightarrow> None
      | d # _ \<Rightarrow> Some d)"

text \<open>\<open>soup.find_all('a', href=True)\<close>: every \<open>a\<close> tag that has an \<open>href\<close> attribute.\<close>

definition find_all_a_href :: "node \<Rightarrow> node list" where
  "find_all_a_href soup =
     filter (\<lambda>d. is_tag d ''a'' \<and> tag_get d ''href'' \<noteq> None) (descendants soup)"

section \<open>The outside world\<close>

text \<open>
  What one crawl cycle sees of its collaborators, through the \<open>session\<close> argument and
  the libraries:
  \<^item> \<open>http_get url headers\<close> is the outcome of \<open>session.get\<close>, \<open>raise_for_status\<close>
    and \<open>resp.text()\<close> together: the decoded body, or the text of the exception raised;
  \<^item> \<open>html_parser\<close> is the tree \<open>BeautifulSoup(html, 'html.parser')\<close> builds from a string,
    or \<open>None\<close> for markup the parser rejects with an exception (a marked section with
    an unknown keyword, for one);
  \<^item> \<open>set_rank\<close> decides the order in which Python iterates a set of strings: the order
    depends on the hashes of the strings, not on the order of insertion, and the
    elements are iterated here by ascending rank;
  \<^item> \<open>makedirs_ok\<close> and \<open>write_ok\<close> say whether \<open>os.makedirs(folder, exist_ok=True)\<close> and
    the opening and writing of a path succeed.
  Within one cycle the same request has the same outcome; the loop is given a fresh
  description for every cycle.
\<close>

record session =
  http_get :: "string \<Rightarrow> (string \<times> string) list option \<Rightarrow> string + string"
  html_parser :: "string \<Rightarrow> node option"
  set_rank :: "string \<Rightarrow> nat"
  makedirs_ok :: "string \<Rightarrow> bool"
  write_ok :: "string \<Rightarrow> bool"

text \<open>
  What the program changes: the files and directories on disk, the lines printed so far
  (oldest first), and the seconds spent in \<open>asyncio.sleep\<close>.
\<close>

record world =
  files :: "string \<rightharpoonup> string"
  dirs :: "string set"
  out :: "msg list"
  slept :: nat

definition print :: "msg \<Rightarrow> world \<Rightarrow> world" where
  "print m w = w\<lparr>out := out w @ [m]\<rparr>"

definition sleep :: "nat \<Rightarrow> world \<Rightarrow> world" where
  "sleep n w = w\<lparr>slept := slept w + n\<rparr>"

section \<open>fetch (lines 14-21)\<close>

text \<open>
  Every exception of the request is caught, printed and turned into \<open>None\<close>; a body
  that was received is returned as it is, also when it is the empty string.
\<close>

definition fetch ::
  "session \<Rightarrow> string \<Rightarrow> (string \<times> string) list option \<Rightarrow> world \<Rightarrow> string option \<times> world" where
  "fetch session url headers w =
     (case http_get session url headers of
        Inr body \<Rightarrow> (Some body, w)
      | Inl e \<Rightarrow> (None, print (Error_while_getting_page url e) w))"

section \<open>BeautifulSoup on what fetch returned\<close>

text \<open>
  \<open>BeautifulSoup(markup, 'html.parser')\<close> takes the length of \<open>markup\<close> before it parses:
  on \<open>None\<close> it raises \<open>TypeError\<close>. On a string (the empty one too) it returns the tree
  the parser builds, or raises when the parser rejects the markup.
\<close>

definition BeautifulSoup :: "session \<Rightarrow> string option \<Rightarrow> error + node" where
  "BeautifulSoup session markup =
     (case markup of
        None \<Rightarrow> Inl TypeError
      | Some html \<Rightarrow>
          (case html_parser session html of
             None \<Rightarrow> Inl ParserRejectedMarkup
           | Some soup \<Rightarrow> Inr soup))"

section \<open>parse_top_news (lines 24-34)\<close>

type_synonym entry = "string option \<times> string"

text \<open>
  The loop over \<open>rows[:TOP_N]\<close>, with \<open>links\<close> the list built so far. \<open>row.get('id')\<close> is
  \<open>None\<close> for a row without an id; \<open>title_span.find('a')['href']\<close> raises \<open>KeyError\<close>
  for a link without a target.
\<close>

fun parse_rows :: "node list \<Rightarrow> entry list \<Rightarrow> error + entry list" where
  "parse_rows [] links = Inr links"
| "parse_rows (row # rows) links =
     (case find_tag row ''span'' (Some ''titleline'') of
        None \<Rightarrow> parse_rows rows links
      | Some title_span \<Rightarrow>
          (case find_tag title_span ''a'' None of
             None \<Rightarrow> parse_rows rows links
           | Some a \<Rightarrow>
               (case tag_getitem a ''href'' of
                  Inl e \<Rightarrow> Inl e
                | Inr full_url \<Rightarrow>
                    (let news_id = tag_get row ''id''
                     in parse_rows rows (links @ [(news_id, full_url)])))))"

definition parse_top_news :: "session \<Rightarrow> string \<Rightarrow> error + entry list" where
  "parse_top_news session html =
     (case BeautifulSoup session (Some html) of
        Inl e \<Rightarrow> Inl e
      | Inr soup \<Rightarrow> parse_rows (take TOP_N (select_tr_athing soup)) [])"

section \<open>save_html (lines 37-41)\<close>

definition save_html ::
  "session \<Rightarrow> string \<Rightarrow> string \<Rightarrow> string \<Rightarrow> world \<Rightarrow> (error + unit) \<times> world" where
  "save_html session folder_path filename html w =
     (if \<not> makedirs_ok session folder_path then (Inl OSError, w)
      else
        let w1 = w\<lparr>dirs := insert folder_path (dirs w)\<rparr>;
            path = os_path_join folder_path filename
        in if \<not> write_ok session path then (Inl OSError, w1)
           else (Inr (), w1\<lparr>files := (files w1)(path \<mapsto> html)\<rparr>))"

section \<open>download_and_save (lines 95-103)\<close>

text \<open>\<open>if html\<close> is false for \<open>None\<close> and for the empty string.\<close>

definition download_and_save ::
  "session \<Rightarrow> string \<Rightarrow> string \<Rightarrow> string \<Rightarrow> world \<Rightarrow> (error + unit) \<times> world" where
  "download_and_save session url folder filename w =
     (case fetch session url None w of
        (None, w1) \<Rightarrow> (Inr (), print (Failed_to_download url) w1)
      | (Some html, w1) \<Rightarrow>
          if html = [] then (Inr (), print (Failed_to_download url) w1)
          else save_html session folder filename html w1)"

section \<open>download_news_and_comments (lines 44-63)\<close>

text \<open>
  \<open>asyncio.gather(*tasks)\<close>: the tasks write different files and read nothing another
  one writes, so they are run here one after the other, in the order they were
  created. The first exception of a task is raised to the caller of \<open>gather\<close>; what
  the tasks that were still running write before the program ends depends on the
  scheduler, and the run stops here at the task that raised.
\<close>

fun gather :: "session \<Rightarrow> (string \<times> string \<times> string) list \<Rightarrow> world \<Rightarrow> (error + unit) \<times> world" where
  "gather session [] w = (Inr (), w)"
| "gather session ((url, folder, filename) # tasks) w =
     (case download_and_save session url folder filename w of
        (Inl e, w1) \<Rightarrow> (Inl e, w1)
      | (Inr u, w1) \<Rightarrow> gather session tasks w1)"

text \<open>\<open>enumerate(xs)\<close>.\<close>

definition enumerate_list :: "'a list \<Rightarrow> (nat \<times> 'a) list" where
  "enumerate_list xs = zip [0..<length xs] xs"

text \<open>The file name of line 61 for the index \<open>i\<close> that \<open>enumerate\<close> gives.\<close>

definition comment_name :: "nat \<Rightarrow> string" where
  "comment_name i = ''comment_'' @ str_nat (i + 1) @ ''.html''"

text \<open>
  The list \<open>tasks\<close> of lines 59-62: one call of \<open>download_and_save\<close> per link, given
  by its arguments (url, folder, filename).
\<close>

definition tasks_of :: "string \<Rightarrow> string list \<Rightarrow> (string \<times> string \<times> string) list" where
  "tasks_of folder news_links =
     map (\<lambda>(i, link). (link, folder, comment_name i)) (enumerate_list news_links)"

text \<open>
  \<open>news_links\<close> is a Python set: it is given as the list of its elements, without
  repetition, in the order the set iterates them (see \<open>set_iter\<close> below).
\<close>

definition download_news_and_comments ::
  "session \<Rightarrow> string option \<Rightarrow> string \<Rightarrow> string list \<Rightarrow> world \<Rightarrow> (error + unit) \<times> world" where
  "download_news_and_comments session news_id news_url news_links w =
     (case news_id of
        None \<Rightarrow> (Inl TypeError, w)
      | Some nid \<Rightarrow>
          let folder = os_path_join NEWS_DIR nid
          in case fetch session news_url None w of
               (None, w1) \<Rightarrow> (Inr (), print (Failed_to_get_news news_url) w1)
             | (Some news_html, w1) \<Rightarrow>
                 if news_html = [] then (Inr (), print (Failed_to_get_news news_url) w1)
                 else
                   (case save_html session folder ''news.html'' news_html w1 of
                      (Inl e, w2) \<Rightarrow> (Inl e, w2)
                    | (Inr u, w2) \<Rightarrow>
                        if news_links = [] then (Inr (), print (No_links_found nid) w2)
                        else
                          let w3 = print (Links_found nid (length news_links)) w2;
                              tasks = tasks_of folder news_links
                          in gather session tasks w3))"

section \<open>get_comments_links (lines 66-92)\<close>

definition headers :: "(string \<times> string) list" where
  "headers =
     [(''User-Agent'', ''Mozilla/5.0 (Windows NT 10.0; Win64; x64) AppleWebKit/537.36 (KHTML, like Gecko) Chrome/114.0.0.0 Safari/537.36''),
      (''Accept'', ''text/html,application/xhtml+xml,application/xml;q=0.9,image/webp,*/*;q=0.8''),
      (''Accept-Language'', ''en-US,en;q=0.9''),
      (''Accept-Encoding'', ''gzip, deflate, br''),
      (''Connection'', ''keep-alive''),
      (''Upgrade-Insecure-Requests'', ''1''),
      (''Sec-Fetch-Dest'', ''document''),
      (''Sec-Fetch-Mode'', ''navigate''),
      (''Sec-Fetch-Site'', ''none''),
      (''Sec-Fetch-User'', ''?1''),
      (''Cache-Control'', ''max-age=0'')]"

text \<open>
  While the set is built it is kept as the list of its elements in the order they
  were first added; \<open>links.add(href)\<close> adds an element that is not there yet.
\<close>

definition set_add :: "string \<Rightarrow> string list \<Rightarrow> string list" where
  "set_add x links = (if x \<in> set links then links else links @ [x])"

text \<open>
  The order in which the finished set is iterated is not the order of insertion: the
  elements come by ascending \<open>set_rank\<close>. Every order of the elements is the order of
  some rank (lemma \<open>set_iter_any_order\<close>), so nothing is assumed about it.
\<close>

definition set_iter :: "session \<Rightarrow> string list \<Rightarrow> string list" where
  "set_iter session links = sort_key (set_rank session) links"

text \<open>The loop over the \<open>a\<close> tags, with \<open>links\<close> the set built so far.\<close>

fun collect_links :: "node list \<Rightarrow> string list \<Rightarrow> string list" where
  "collect_links [] links = links"
| "collect_links (link # rest) links =
     (case tag_get link ''href'' of
        None \<Rightarrow> collect_links rest links
      | Some href \<Rightarrow>
          if startswith href ''http://'' \<or> startswith href ''https://''
          then collect_links rest (set_add href links)
          else collect_links rest links)"

text \<open>
  After the message of line 86 the function goes on to line 87 with the page it
  has, \<open>None\<close> included.
\<close>

definition get_comments_links ::
  "session \<Rightarrow> string option \<Rightarrow> world \<Rightarrow> (error + string list) \<times> world" where
  "get_comments_links session news_id w =
     (let url = BASE_URL @ ''item?id='' @ str_opt news_id;
          (page, w1) = fetch session url (Some headers) w;
          links = [];
          w2 = (if page = None \<or> page = Some [] then print (Failed_to_get_page news_id) w1 else w1)
      in case BeautifulSoup session page of
           Inl e \<Rightarrow> (Inl e, w2)
         | Inr soup \<Rightarrow>
             (Inr (set_iter session (collect_links (find_all_a_href soup) links)), w2))"

section \<open>main (lines 106-128)\<close>

text \<open>The \<open>for\<close> loop of lines 120-124; \<open>seen_news\<close> is the set of ids seen so far.\<close>

fun for_new_news ::
  "session \<Rightarrow> entry list \<Rightarrow> string option set \<Rightarrow> world \<Rightarrow> (error + string option set) \<times> world" where
  "for_new_news session [] seen_news w = (Inr seen_news, w)"
| "for_new_news session ((nid, url) # rest) seen_news w =
     (let w1 = print (Downloading_news nid url) w
      in case get_comments_links session nid w1 of
           (Inl e, w2) \<Rightarrow> (Inl e, w2)
         | (Inr news_links, w2) \<Rightarrow>
             (case download_news_and_comments session nid url news_links w2 of
                (Inl e, w3) \<Rightarrow> (Inl e, w3)
              | (Inr u, w3) \<Rightarrow> for_new_news session rest (insert nid seen_news) w3))"

text \<open>\<open>new_news\<close> of line 117.\<close>

definition new_news_of :: "entry list \<Rightarrow> string option set \<Rightarrow> entry list" where
  "new_news_of top_news seen_news = filter (\<lambda>(nid, url). nid \<notin> seen_news) top_news"

text \<open>One pass through the body of \<open>while True\<close>.\<close>

definition main_cycle ::
  "session \<Rightarrow> string option set \<Rightarrow> world \<Rightarrow> (error + string option set) \<times> world" where
  "main_cycle session seen_news w =
     (let (main_page_html, w1) = fetch session BASE_URL None (print Main_page_parsing w);
          skip = (Inr seen_news, sleep CRAWL_INTERVAL (print Main_page_parsing_error w1))
      in case main_page_html of
           None \<Rightarrow> skip
         | Some html \<Rightarrow>
             if html = [] then skip
             else
               (case parse_top_news session html of
                  Inl e \<Rightarrow> (Inl e, w1)
                | Inr top_news \<Rightarrow>
                    let new_news = new_news_of top_news seen_news
                    in if new_news \<noteq> [] then
                         (case for_new_news session new_news seen_news (print (News_found (length new_news)) w1) of
                            (Inl e, w2) \<Rightarrow> (Inl e, w2)
                          | (Inr seen', w2) \<Rightarrow> (Inr seen', sleep CRAWL_INTERVAL w2))
                       else (Inr seen_news, sleep CRAWL_INTERVAL (print No_unprocessed_news w1))))"

text \<open>
  \<open>while True\<close> never returns: the loop is run for as many cycles as there are
  descriptions of the outside world, one per cycle, and stops early only when a
  cycle raises.
\<close>

fun main_loop ::
  "session list \<Rightarrow> string option set \<Rightarrow> world \<Rightarrow> (error + string option set) \<times> world" where
  "main_loop [] seen_news w = (Inr seen_news, w)"
| "main_loop (session # later) seen_news w =
     (case main_cycle session seen_news w of
        (Inl e, w1) \<Rightarrow> (Inl e, w1)
      | (Inr seen', w1) \<Rightarrow> main_loop later seen' w1)"

definition main :: "session list \<Rightarrow> world \<Rightarrow> (error + string option set) \<times> world" where
  "main sessions w = main_loop sessions {} w"

section \<open>Notions the properties are stated with\<close>

text \<open>The ids for which line 121 was reached, in order: the entries whose processing began.\<close>

fun processed_ids :: "msg list \<Rightarrow> string option list" where
  "processed_ids [] = []"
| "processed_ids (Downloading_news nid url # ms) = nid # processed_ids ms"
| "processed_ids (m # ms) = processed_ids ms"

definition processed :: "world \<Rightarrow> string option list" where
  "processed w = processed_ids (out w)"

text \<open>
  The title link of a row, as lines 29-30 look for it: the first \<open>a\<close> tag inside the
  first \<open>span\<close> of class \<open>titleline\<close>.
\<close>

definition title_link :: "node \<Rightarrow> node option" where
  "title_link row =
     (case find_tag row ''span'' (Some ''titleline'') of
        None \<Rightarrow> None
      | Some title_span \<Rightarrow> find_tag title_span ''a'' None)"

text \<open>A valid row: its title link exists and has a target.\<close>

definition valid_row :: "node \<Rightarrow> bool" where
  "valid_row row =
     (case title_link row of None \<Rightarrow> False | Some a \<Rightarrow> tag_get a ''href'' \<noteq> None)"

text \<open>
  What lines 29-33 append for one row when they raise nothing: the pair of the row's
  id and the target of its title link, or nothing for a row that is not valid.
\<close>

definition row_entry :: "node \<Rightarrow> entry option" where
  "row_entry row =
     (case title_link row of
        None \<Rightarrow> None
      | Some a \<Rightarrow>
          (case tag_get a ''href'' of
             None \<Rightarrow> None
           | Some full_url \<Rightarrow> Some (tag_get row ''id'', full_url)))"

text \<open>A link target that line 90 accepts.\<close>

definition absolute :: "string \<Rightarrow> bool" where
  "absolute href = (startswith href ''http://'' \<or> startswith href ''https://'')"

text \<open>The path of a document of an entry's folder.\<close>

definition doc_path :: "string \<Rightarrow> string \<Rightarrow> string" where
  "doc_path nid filename = os_path_join (os_path_join NEWS_DIR nid) filename"

text \<open>The path a fan-out task (url, folder, filename) writes to.\<close>

fun task_path :: "string \<times> string \<times> string \<Rightarrow> string" where
  "task_path (u, f, n) = os_path_join f n"

section \<open>Example pages and sessions\<close>

text \<open>Pages as text, and beside each the tree the parser builds from it.\<close>

definition doc_root :: "node list \<Rightarrow> node" where
  "doc_root cs = Tag ''[document]'' [] cs"

definition link_html :: "string \<Rightarrow> string" where
  "link_html href = ''<a href='' @ href @ ''>link</a>''"

definition link_tag :: "string \<Rightarrow> node" where
  "link_tag href = Tag ''a'' [(''href'', href)] [NavigableString ''link'']"

definition row_html :: "string \<Rightarrow> string \<Rightarrow> string" where
  "row_html i href =
     ''<tr class=athing id='' @ i @ ''><span class=titleline>'' @ link_html href @ ''</span></tr>''"

definition row_tag :: "string \<Rightarrow> string \<Rightarrow> node" where
  "row_tag i href =
     Tag ''tr'' [(''class'', ''athing''), (''id'', i)]
       [Tag ''span'' [(''class'', ''titleline'')] [link_tag href]]"

definition front_html :: string where
  "front_html = row_html ''1'' ''http://n.example/1'' @ row_html ''2'' ''http://n.example/2''"

definition front_doc :: node where
  "front_doc = doc_root [row_tag ''1'' ''http://n.example/1'', row_tag ''2'' ''http://n.example/2'']"

text \<open>A thread page with the links A, B, A, C, a relative link and an anchor without target.\<close>

definition thread_html :: string where
  "thread_html =
     link_html ''https://a.example/x'' @ link_html ''http://b.example/x'' @
     link_html ''https://a.example/x'' @ link_html ''item?id=1'' @ ''<a>none</a>'' @
     link_html ''http://c.example/x''"

definition thread_doc :: node where
  "thread_doc =
     doc_root [link_tag ''https://a.example/x'', link_tag ''http://b.example/x'',
               link_tag ''https://a.example/x'', link_tag ''item?id=1'',
               Tag ''a'' [] [NavigableString ''none''], link_tag ''http://c.example/x'']"

text \<open>A front page that lists the id 1 in two rows.\<close>

definition dup_html :: string where
  "dup_html = row_html ''1'' ''http://n.example/1'' @ row_html ''1'' ''http://n.example/1''"

definition dup_doc :: node where
  "dup_doc = doc_root [row_tag ''1'' ''http://n.example/1'', row_tag ''1'' ''http://n.example/1'']"

text \<open>
  A front page of six rows: the first has no title link, the second a title link but
  no id, the other four are complete.
\<close>

definition six_html :: string where
  "six_html =
     ''<tr class=athing id=9><span class=titleline>none</span></tr>'' @
     ''<tr class=athing><span class=titleline>'' @ link_html ''http://n.example/2'' @ ''</span></tr>'' @
     row_html ''3'' ''http://n.example/3'' @ row_html ''4'' ''http://n.example/4'' @
     row_html ''5'' ''http://n.example/5'' @ row_html ''6'' ''http://n.example/6''"

definition six_doc :: node where
  "six_doc =
     doc_root [Tag ''tr'' [(''class'', ''athing''), (''id'', ''9'')]
                 [Tag ''span'' [(''class'', ''titleline'')] [NavigableString ''none'']],
               Tag ''tr'' [(''class'', ''athing'')]
                 [Tag ''span'' [(''class'', ''titleline'')] [link_tag ''http://n.example/2'']],
               row_tag ''3'' ''http://n.example/3'', row_tag ''4'' ''http://n.example/4'',
               row_tag ''5'' ''http://n.example/5'', row_tag ''6'' ''http://n.example/6'']"

text \<open>A front page of five complete rows.\<close>

definition five_html :: string where
  "five_html =
     row_html ''1'' ''http://n.example/1'' @ row_html ''2'' ''http://n.example/2'' @
     row_html ''3'' ''http://n.example/3'' @ row_html ''4'' ''http://n.example/4'' @
     row_html ''5'' ''http://n.example/5''"

definition five_doc :: node where
  "five_doc =
     doc_root [row_tag ''1'' ''http://n.example/1'', row_tag ''2'' ''http://n.example/2'',
               row_tag ''3'' ''http://n.example/3'', row_tag ''4'' ''http://n.example/4'',
               row_tag ''5'' ''http://n.example/5'']"

text \<open>A front page whose only row has a title anchor without \<open>href\<close>.\<close>

definition nohref_html :: string where
  "nohref_html = ''<tr class=athing id=1><span class=titleline><a>one</a></span></tr>''"

definition nohref_doc :: node where
  "nohref_doc =
     doc_root [Tag ''tr'' [(''class'', ''athing''), (''id'', ''1'')]
                 [Tag ''span'' [(''class'', ''titleline'')] [Tag ''a'' [] [NavigableString ''one'']]]]"

text \<open>Markup that the parser rejects: a marked section with an unknown keyword.\<close>

definition rejected_html :: string where
  "rejected_html = ''<![foo[bar]]>''"

definition ex_parser :: "string \<Rightarrow> node option" where
  "ex_parser html =
     (if html = front_html then Some front_doc
      else if html = thread_html then Some thread_doc
      else if html = dup_html then Some dup_doc
      else if html = six_html then Some six_doc
      else if html = five_html then Some five_doc
      else if html = nohref_html then Some nohref_doc
      else if html = rejected_html then None
      else if html = [] then Some (doc_root [])
      else Some (doc_root [NavigableString html]))"

text \<open>
  A session in which the front page lists the entries 1 and 2, the thread of entry 1
  links to A, B (whose download fails), A again and C, the thread of entry 2 has no
  link, every write succeeds, and sets are iterated with B first.
\<close>

definition b_first :: "string \<Rightarrow> nat" where
  "b_first x = (if x = ''http://b.example/x'' then 0 else 1)"

definition ex_get :: "string \<Rightarrow> (string \<times> string) list option \<Rightarrow> string + string" where
  "ex_get url hs =
     (if url = ''https://news.ycombinator.com/'' then Inr front_html
      else if url = ''https://news.ycombinator.com/item?id=1'' then Inr thread_html
      else if url = ''https://news.ycombinator.com/item?id=2'' then Inr ''no links here''
      else if url = ''http://n.example/1'' then Inr ''news one''
      else if url = ''http://n.example/2'' then Inr ''news two''
      else if url = ''https://a.example/x'' then Inr ''page A''
      else if url = ''http://c.example/x'' then Inr ''page C''
      else Inl ''404'')"

definition ex_session :: session where
  "ex_session =
     \<lparr>http_get = ex_get, html_parser = ex_parser, set_rank = b_first,
      makedirs_ok = (\<lambda>p. True), write_ok = (\<lambda>p. True)\<rparr>"

text \<open>The same session with another front page.\<close>

definition with_front :: "string \<Rightarrow> session" where
  "with_front html =
     ex_session\<lparr>http_get :=
       (\<lambda>url hs. if url = ''https://news.ycombinator.com/'' then Inr html else ex_get url hs)\<rparr>"

text \<open>The same session, the thread page of entry 2 answering with an error status.\<close>

definition thread2_down :: session where
  "thread2_down =
     ex_session\<lparr>http_get :=
       (\<lambda>url hs. if url = ''https://news.ycombinator.com/item?id=2'' then Inl ''500''
                  else ex_get url hs)\<rparr>"

text \<open>
  The same session, the thread page of entry 2 arriving with an empty body, and
  arriving with markup the parser rejects.
\<close>

definition thread2_empty :: session where
  "thread2_empty =
     ex_session\<lparr>http_get :=
       (\<lambda>url hs. if url = ''https://news.ycombinator.com/item?id=2'' then Inr []
                  else ex_get url hs)\<rparr>"

definition thread2_rejected :: session where
  "thread2_rejected =
     ex_session\<lparr>http_get :=
       (\<lambda>url hs. if url = ''https://news.ycombinator.com/item?id=2'' then Inr rejected_html
                  else ex_get url hs)\<rparr>"

text \<open>The same session, the front page and the news page of entry 1 arriving with an empty body.\<close>

definition empty_front :: session where
  "empty_front = with_front []"

definition empty_primary :: session where
  "empty_primary =
     ex_session\<lparr>http_get :=
       (\<lambda>url hs. if url = ''http://n.example/1'' then Inr [] else ex_get url hs)\<rparr>"

text \<open>The same session on a disk that takes no write, and on one that refuses one file.\<close>

definition disk_full :: session where
  "disk_full = ex_session\<lparr>write_ok := (\<lambda>p. False)\<rparr>"

text \<open>
  In the second one every link of the thread of entry 1 can be downloaded, so that the
  file that is refused is written to whichever link the set iterates first.
\<close>

definition comment_unwritable :: session where
  "comment_unwritable =
     ex_session\<lparr>http_get :=
         (\<lambda>url hs. if url = ''http://b.example/x'' then Inr ''page B'' else ex_get url hs),
       write_ok := (\<lambda>p. p \<noteq> ''data/1/comment_1.html'')\<rparr>"

definition w0 :: world where
  "w0 = \<lparr>files = Map.empty, dirs = {}, out = [], slept = 0\<rparr>"

section \<open>Basic facts\<close>

declare str_nat.simps [simp del]

lemmas ex_defs =
  ex_session_def with_front_def thread2_down_def thread2_empty_def thread2_rejected_def
  rejected_html_def b_first_def empty_front_def empty_primary_def
  disk_full_def comment_unwritable_def ex_get_def ex_parser_def
  front_html_def front_doc_def thread_html_def thread_doc_def dup_html_def dup_doc_def
  six_html_def six_doc_def five_html_def five_doc_def nohref_html_def nohref_doc_def
  doc_root_def link_html_def link_tag_def row_html_def row_tag_def w0_def

lemmas run_defs =
  main_def main_cycle_def new_news_of_def get_comments_links_def
  download_news_and_comments_def download_and_save_def save_html_def fetch_def
  parse_top_news_def BeautifulSoup_def select_tr_athing_def find_all_a_href_def
  find_tag_def has_class_def is_space_def tag_getitem_def set_add_def set_iter_def startswith_def
  os_path_join_def enumerate_list_def tasks_of_def comment_name_def digit_char_def
  str_opt_def print_def sleep_def
  BASE_URL_def TOP_N_def NEWS_DIR_def CRAWL_INTERVAL_def headers_def

subsection \<open>Decimal numerals and paths\<close>

lemma digit_char_inj: "a < 10 \<Longrightarrow> b < 10 \<Longrightarrow> digit_char a = digit_char b \<Longrightarrow> a = b"
proof -
  assume a: "a < 10" and b: "b < 10" and eq: "digit_char a = digit_char b"
  from eq have "of_char (char_of (48 + a) :: char) = (of_char (char_of (48 + b) :: char) :: nat)"
    by (simp add: digit_char_def)
  then have "(48 + a) mod 256 = (48 + b) mod 256"
    by (simp only: of_char_of)
  with a b show "a = b" by simp
qed

lemma str_nat_not_Nil: "str_nat n \<noteq> []"
  by (subst str_nat.simps) simp

lemma str_nat_inj: "str_nat a = str_nat b \<Longrightarrow> a = b"
proof (induction a arbitrary: b rule: str_nat.induct)
  case (1 n)
  show ?case
  proof (cases "n < 10")
    case small: True
    show ?thesis
    proof (cases "b < 10")
      case True
      with small "1.prems" show ?thesis
        by (simp add: str_nat.simps [of n] str_nat.simps [of b] digit_char_inj)
    next
      case False
      with small "1.prems" show ?thesis
        using str_nat_not_Nil [of "b div 10"]
        by (simp add: str_nat.simps [of n] str_nat.simps [of b] Cons_eq_append_conv)
    qed
  next
    case big: False
    show ?thesis
    proof (cases "b < 10")
      case True
      with big "1.prems" show ?thesis
        using str_nat_not_Nil [of "n div 10"]
        by (simp add: str_nat.simps [of n] str_nat.simps [of b] append_eq_Cons_conv)
    next
      case False
      with big "1.prems" have eq: "str_nat (n div 10) = str_nat (b div 10)"
        and d: "digit_char (n mod 10) = digit_char (b mod 10)"
        by (simp_all add: str_nat.simps [of n] str_nat.simps [of b])
      from "1.IH" [OF big eq] have "n div 10 = b div 10" .
      moreover from d have "n mod 10 = b mod 10"
        by (rule digit_char_inj [rotated 2]) simp_all
      ultimately show ?thesis
        by (metis div_mult_mod_eq)
    qed
  qed
qed

lemma comment_name_inj: "comment_name i = comment_name j \<Longrightarrow> i = j"
  using str_nat_inj [of "i + 1" "j + 1"] by (simp add: comment_name_def)

lemma comment_name_not_news: "comment_name i \<noteq> ''news.html''"
  by (simp add: comment_name_def)

lemma comment_name_relative: "\<not> startswith (comment_name i) ''/''"
  by (simp add: comment_name_def startswith_def)

lemma os_path_join_inj:
  "\<not> startswith a ''/'' \<Longrightarrow> \<not> startswith b ''/'' \<Longrightarrow> os_path_join f a = os_path_join f b \<Longrightarrow> a = b"
  by (simp add: os_path_join_def split: if_splits)

lemma comment_path_inj:
  "os_path_join f (comment_name i) = os_path_join f (comment_name j) \<Longrightarrow> i = j"
  using os_path_join_inj [OF comment_name_relative comment_name_relative] comment_name_inj by blast

lemma comment_path_not_news:
  "os_path_join f (comment_name i) \<noteq> os_path_join f ''news.html''"
  using os_path_join_inj [OF comment_name_relative, of "''news.html''" f i] comment_name_not_news
  by (auto simp: startswith_def)

subsection \<open>Printing, sleeping and fetching leave the disk alone\<close>

lemma files_print [simp]: "files (print m w) = files w"
  and dirs_print [simp]: "dirs (print m w) = dirs w"
  and out_print [simp]: "out (print m w) = out w @ [m]"
  and slept_print [simp]: "slept (print m w) = slept w"
  by (simp_all add: print_def)

lemma files_sleep [simp]: "files (sleep n w) = files w"
  and dirs_sleep [simp]: "dirs (sleep n w) = dirs w"
  and out_sleep [simp]: "out (sleep n w) = out w"
  by (simp_all add: sleep_def)

lemma fetch_Inr: "http_get s url h = Inr body \<Longrightarrow> fetch s url h w = (Some body, w)"
  by (simp add: fetch_def)

lemma fetch_Inl:
  "http_get s url h = Inl e \<Longrightarrow> fetch s url h w = (None, print (Error_while_getting_page url e) w)"
  by (simp add: fetch_def)

lemma fetch_disk [simp]:
  "files (snd (fetch s url h w)) = files w" "dirs (snd (fetch s url h w)) = dirs w"
  by (simp_all add: fetch_def split: sum.splits)

subsection \<open>The ids whose processing began\<close>

lemma processed_ids_append: "processed_ids (xs @ ys) = processed_ids xs @ processed_ids ys"
  by (induction xs rule: processed_ids.induct) simp_all

lemma processed_print:
  "processed (print m w) =
     (case m of Downloading_news nid url \<Rightarrow> processed w @ [nid] | _ \<Rightarrow> processed w)"
  by (cases m) (simp_all add: processed_def print_def processed_ids_append)

lemma processed_sleep [simp]: "processed (sleep n w) = processed w"
  by (simp add: processed_def sleep_def)

subsection \<open>save_html and download_and_save\<close>

lemma save_html_ok:
  "makedirs_ok s f \<Longrightarrow> write_ok s (os_path_join f n) \<Longrightarrow>
   save_html s f n html w =
     (Inr (), w\<lparr>dirs := insert f (dirs w), files := (files w)(os_path_join f n \<mapsto> html)\<rparr>)"
  by (simp add: save_html_def Let_def)

lemma save_html_fail:
  "\<not> makedirs_ok s f \<or> \<not> write_ok s (os_path_join f n) \<Longrightarrow>
   fst (save_html s f n html w) = Inl OSError \<and> files (snd (save_html s f n html w)) = files w
   \<and> out (snd (save_html s f n html w)) = out w"
  by (auto simp: save_html_def Let_def)

lemma save_html_error: "fst (save_html s f n html w) = Inl e \<Longrightarrow> e = OSError"
  by (auto simp: save_html_def Let_def split: if_splits)

lemma save_html_files_other:
  "p \<noteq> os_path_join f n \<Longrightarrow> files (snd (save_html s f n html w)) p = files w p"
  by (simp add: save_html_def Let_def)

lemma save_html_out [simp]: "out (snd (save_html s f n html w)) = out w"
  by (simp add: save_html_def Let_def)

lemma fetch_out_processed [simp]: "processed (snd (fetch s url h w)) = processed w"
  by (simp add: fetch_def processed_print split: sum.splits)

lemma processed_save_html [simp]: "processed (snd (save_html s f n html w)) = processed w"
  by (simp add: processed_def)

lemma save_html_error': "save_html s f n html w = (Inl e, w') \<Longrightarrow> e = OSError"
  using save_html_error [of s f n html w e] by simp

lemma download_and_save_error: "fst (download_and_save s u f n w) = Inl e \<Longrightarrow> e = OSError"
  by (auto simp: download_and_save_def split: prod.splits option.splits if_splits
        dest: save_html_error)

lemma download_and_save_fetched:
  "http_get s u None = Inr html \<Longrightarrow> html \<noteq> [] \<Longrightarrow>
   download_and_save s u f n w = save_html s f n html w"
  by (simp add: download_and_save_def fetch_Inr)

lemma download_and_save_not_fetched:
  "http_get s u None = Inr [] \<or> http_get s u None = Inl e \<Longrightarrow>
   fst (download_and_save s u f n w) = Inr () \<and> files (snd (download_and_save s u f n w)) = files w"
  by (auto simp: download_and_save_def fetch_Inr fetch_Inl)

lemma download_and_save_files_other:
  "p \<noteq> os_path_join f n \<Longrightarrow> files (snd (download_and_save s u f n w)) p = files w p"
  by (cases "http_get s u None")
     (auto simp: download_and_save_def fetch_Inr fetch_Inl save_html_files_other)

lemma processed_download_and_save [simp]:
  "processed (snd (download_and_save s u f n w)) = processed w"
  by (cases "http_get s u None")
     (auto simp: download_and_save_def fetch_Inr fetch_Inl processed_print)

text \<open>What one task leaves at its own path.\<close>

lemma download_and_save_files_own:
  "makedirs_ok s f \<Longrightarrow> write_ok s (os_path_join f n) \<Longrightarrow>
   fst (download_and_save s u f n w) = Inr () \<and>
   files (snd (download_and_save s u f n w)) (os_path_join f n) =
     (case http_get s u None of
        Inl e \<Rightarrow> files w (os_path_join f n)
      | Inr html \<Rightarrow> if html = [] then files w (os_path_join f n) else Some html)"
  by (cases "http_get s u None")
     (auto simp: download_and_save_def fetch_Inr fetch_Inl save_html_ok)

subsection \<open>gather\<close>


lemma gather_files_other:
  "p \<notin> task_path ` set tasks \<Longrightarrow> files (snd (gather s tasks w)) p = files w p"
proof (induction tasks arbitrary: w)
  case Nil
  show ?case by simp
next
  case (Cons t tasks)
  obtain u f n where t: "t = (u, f, n)" by (cases t)
  from Cons.prems t have p: "p \<noteq> os_path_join f n" and rest: "p \<notin> task_path ` set tasks"
    by auto
  obtain r w1 where das: "download_and_save s u f n w = (r, w1)" by force
  have w1: "files w1 p = files w p"
    using download_and_save_files_other [OF p, of s u w] das by simp
  show ?case
    using Cons.IH [OF rest, of w1] w1 das t by (cases r) simp_all
qed

lemma processed_gather [simp]: "processed (snd (gather s tasks w)) = processed w"
proof (induction tasks arbitrary: w)
  case Nil
  show ?case by simp
next
  case (Cons t tasks)
  obtain u f n where t: "t = (u, f, n)" by (cases t)
  obtain r w1 where das: "download_and_save s u f n w = (r, w1)" by force
  have "processed w1 = processed w"
    using processed_download_and_save [of s u f n w] das by simp
  then show ?case
    using Cons.IH [of w1] das t by (cases r) simp_all
qed

lemma gather_error: "fst (gather s tasks w) = Inl e \<Longrightarrow> e = OSError"
proof (induction tasks arbitrary: w)
  case Nil
  then show ?case by simp
next
  case (Cons t tasks)
  obtain u f n where t: "t = (u, f, n)" by (cases t)
  obtain r w1 where das: "download_and_save s u f n w = (r, w1)" by force
  show ?case
  proof (cases r)
    case (Inl e')
    with Cons.prems das t have "e' = e" by simp
    moreover have "e' = OSError"
      using download_and_save_error [of s u f n w e'] das Inl by simp
    ultimately show ?thesis by simp
  next
    case (Inr x)
    with Cons.prems das t have "fst (gather s tasks w1) = Inl e" by simp
    then show ?thesis by (rule Cons.IH)
  qed
qed

lemma gather_raises:
  assumes "(u, f, n) \<in> set tasks" "http_get s u None = Inr html" "html \<noteq> []"
    and "\<not> makedirs_ok s f \<or> \<not> write_ok s (os_path_join f n)"
  shows "fst (gather s tasks w) = Inl OSError"
  using assms(1)
proof (induction tasks arbitrary: w)
  case Nil
  then show ?case by simp
next
  case (Cons t tasks)
  obtain u' f' n' where t: "t = (u', f', n')" by (cases t)
  obtain r w1 where das: "download_and_save s u' f' n' w = (r, w1)" by force
  show ?case
  proof (cases r)
    case (Inl e')
    have "e' = OSError"
      using download_and_save_error [of s u' f' n' w e'] das Inl by simp
    with Inl das t show ?thesis by simp
  next
    case (Inr x)
    have "t \<noteq> (u, f, n)"
    proof
      assume "t = (u, f, n)"
      with t das have "download_and_save s u f n w = (r, w1)" by simp
      moreover have "fst (download_and_save s u f n w) = Inl OSError"
        using download_and_save_fetched [OF assms(2,3), of f n w] save_html_fail [OF assms(4), of html w]
        by simp
      ultimately show False using Inr by simp
    qed
    with Cons.prems have "(u, f, n) \<in> set tasks" by simp
    from Cons.IH [OF this, of w1] Inr das t show ?thesis by simp
  qed
qed

lemma gather_ok:
  assumes "\<And>u f n. (u, f, n) \<in> set tasks \<Longrightarrow> makedirs_ok s f \<and> write_ok s (os_path_join f n)"
  shows "fst (gather s tasks w) = Inr ()"
  using assms
proof (induction tasks arbitrary: w)
  case Nil
  show ?case by simp
next
  case (Cons t tasks)
  obtain u f n where t: "t = (u, f, n)" by (cases t)
  obtain r w1 where das: "download_and_save s u f n w = (r, w1)" by force
  have ok: "makedirs_ok s f" "write_ok s (os_path_join f n)"
    using Cons.prems [of u f n] t by simp_all
  have "r = Inr ()"
    using download_and_save_files_own [OF ok, of u w] das by simp
  moreover have "fst (gather s tasks w1) = Inr ()"
    by (rule Cons.IH) (use Cons.prems in auto)
  ultimately show ?case using das t by simp
qed

lemma gather_files_own:
  assumes ok: "\<And>u f n. (u, f, n) \<in> set tasks \<Longrightarrow> makedirs_ok s f \<and> write_ok s (os_path_join f n)"
    and "distinct (map task_path tasks)" "(u, f, n) \<in> set tasks"
  shows "files (snd (gather s tasks w)) (os_path_join f n) =
     (case http_get s u None of
        Inl e \<Rightarrow> files w (os_path_join f n)
      | Inr html \<Rightarrow> if html = [] then files w (os_path_join f n) else Some html)"
  using assms
proof (induction tasks arbitrary: w)
  case Nil
  then show ?case by simp
next
  case (Cons t tasks)
  obtain u' f' n' where t: "t = (u', f', n')" by (cases t)
  obtain r w1 where das: "download_and_save s u' f' n' w = (r, w1)" by force
  have ok': "makedirs_ok s f'" "write_ok s (os_path_join f' n')"
    using Cons.prems(1) [of u' f' n'] t by simp_all
  note own = download_and_save_files_own [OF ok', of u' w]
  from own das have r: "r = Inr ()" by simp
  from Cons.prems(2) t have fresh: "os_path_join f' n' \<notin> task_path ` set tasks"
    and dist: "distinct (map task_path tasks)"
    by auto
  show ?case
  proof (cases "(u, f, n) = t")
    case True
    with t have same: "u' = u" "f' = f" "n' = n" by simp_all
    have step: "gather s (t # tasks) w = gather s tasks w1"
      using das r t by simp
    have g: "files (snd (gather s tasks w1)) (os_path_join f n) = files w1 (os_path_join f n)"
      using gather_files_other [of "os_path_join f n" tasks s w1] fresh same by simp
    have "files w1 (os_path_join f n) =
       (case http_get s u None of
          Inl e \<Rightarrow> files w (os_path_join f n)
        | Inr html \<Rightarrow> if html = [] then files w (os_path_join f n) else Some html)"
      using own das unfolding same by simp
    with g show ?thesis unfolding step by simp
  next
    case False
    with Cons.prems(3) have mem: "(u, f, n) \<in> set tasks" by auto
    then have "task_path (u, f, n) \<in> task_path ` set tasks"
      by (rule imageI)
    then have "os_path_join f n \<in> task_path ` set tasks"
      by simp
    with fresh have ne: "os_path_join f n \<noteq> os_path_join f' n'" by metis
    have w1: "files w1 (os_path_join f n) = files w (os_path_join f n)"
      using download_and_save_files_other [OF ne, of s u' w] das by simp
    have "files (snd (gather s tasks w1)) (os_path_join f n) =
       (case http_get s u None of
          Inl e \<Rightarrow> files w1 (os_path_join f n)
        | Inr html \<Rightarrow> if html = [] then files w1 (os_path_join f n) else Some html)"
      by (rule Cons.IH [OF _ dist mem]) (use Cons.prems(1) in auto)
    with w1 das r t show ?thesis by (simp split: sum.splits)
  qed
qed

subsection \<open>The tasks of the fan-out\<close>


lemma tasks_of_eq:
  "tasks_of folder links = map (\<lambda>i. (links ! i, folder, comment_name i)) [0..<length links]"
  by (rule nth_equalityI) (simp_all add: tasks_of_def enumerate_list_def)

lemma set_tasks_of:
  "set (tasks_of folder links) = (\<lambda>i. (links ! i, folder, comment_name i)) ` {..<length links}"
  by (auto simp: tasks_of_eq)

lemma distinct_tasks_of: "distinct (map task_path (tasks_of folder links))"
proof -
  have "map task_path (tasks_of folder links) =
      map (\<lambda>i. os_path_join folder (comment_name i)) [0..<length links]"
    by (simp add: tasks_of_eq)
  moreover have "inj_on (\<lambda>i. os_path_join folder (comment_name i)) (set [0..<length links])"
    by (rule inj_onI) (rule comment_path_inj)
  ultimately show ?thesis
    by (simp add: distinct_map)
qed

lemma news_not_task: "os_path_join folder ''news.html'' \<notin> task_path ` set (tasks_of folder links)"
  using comment_path_not_news [of folder] by (auto simp: set_tasks_of) metis

subsection \<open>download_news_and_comments\<close>

lemma dnc_fetched:
  assumes "http_get s url None = Inr body" "body \<noteq> []"
  shows "download_news_and_comments s (Some nid) url links w =
     (case save_html s (os_path_join NEWS_DIR nid) ''news.html'' body w of
        (Inl e, w2) \<Rightarrow> (Inl e, w2)
      | (Inr u, w2) \<Rightarrow>
          if links = [] then (Inr (), print (No_links_found nid) w2)
          else gather s (tasks_of (os_path_join NEWS_DIR nid) links)
                 (print (Links_found nid (length links)) w2))"
  using assms
  by (simp add: download_news_and_comments_def fetch_Inr Let_def
        split: prod.splits sum.splits)

lemma dnc_not_fetched:
  assumes "http_get s url None = Inr [] \<or> http_get s url None = Inl e"
  shows "fst (download_news_and_comments s (Some nid) url links w) = Inr ()"
    and "files (snd (download_news_and_comments s (Some nid) url links w)) = files w"
    and "dirs (snd (download_news_and_comments s (Some nid) url links w)) = dirs w"
  using assms
  by (auto simp: download_news_and_comments_def fetch_Inr fetch_Inl Let_def)

lemma dnc_error:
  assumes raised: "fst (download_news_and_comments s nid url links w) = Inl e"
  shows "(nid = None \<and> e = TypeError) \<or> (nid \<noteq> None \<and> e = OSError)"
proof (cases nid)
  case None
  with raised show ?thesis by (simp add: download_news_and_comments_def)
next
  case (Some i)
  show ?thesis
  proof (cases "http_get s url None")
    case (Inl x)
    with raised Some dnc_not_fetched(1) [of s url x i links w] show ?thesis by simp
  next
    case (Inr body)
    show ?thesis
    proof (cases "body = []")
      case True
      with Inr raised Some dnc_not_fetched(1) [of s url undefined i links w] show ?thesis by simp
    next
      case False
      obtain r w2 where sv: "save_html s (os_path_join NEWS_DIR i) ''news.html'' body w = (r, w2)"
        by force
      show ?thesis
      proof (cases r)
        case (Inl e')
        with raised Some sv dnc_fetched [OF Inr False, of i links w] have "e' = e" by simp
        moreover from Inl sv have "e' = OSError" by (auto dest: save_html_error')
        ultimately show ?thesis using Some by simp
      next
        case r: (Inr x)
        with raised Some sv dnc_fetched [OF Inr False, of i links w]
        have "fst (gather s (tasks_of (os_path_join NEWS_DIR i) links)
                 (print (Links_found i (length links)) w2)) = Inl e"
          by (simp split: if_splits)
        then have "e = OSError" by (rule gather_error)
        with Some show ?thesis by simp
      qed
    qed
  qed
qed

lemma processed_dnc [simp]:
  "processed (snd (download_news_and_comments s nid url links w)) = processed w"
proof (cases nid)
  case None
  then show ?thesis by (simp add: download_news_and_comments_def)
next
  case (Some i)
  show ?thesis
  proof (cases "http_get s url None")
    case (Inl x)
    with Some show ?thesis
      by (simp add: download_news_and_comments_def fetch_Inl processed_print)
  next
    case (Inr body)
    show ?thesis
    proof (cases "body = []")
      case True
      with Inr Some show ?thesis
        by (simp add: download_news_and_comments_def fetch_Inr processed_print)
    next
      case False
      obtain r w2 where sv: "save_html s (os_path_join NEWS_DIR i) ''news.html'' body w = (r, w2)"
        by force
      have "processed w2 = processed w"
        using processed_save_html [of s "os_path_join NEWS_DIR i" "''news.html''" body w] sv by simp
      then show ?thesis
        using Some sv dnc_fetched [OF Inr False, of i links w]
        by (cases r) (simp_all add: processed_print)
    qed
  qed
qed

text \<open>The primary document is on disk after a fetch with a body and a store that works.\<close>

lemma dnc_news_written:
  assumes "http_get s url None = Inr body" "body \<noteq> []"
    and "makedirs_ok s (os_path_join NEWS_DIR nid)" "write_ok s (doc_path nid ''news.html'')"
  shows "files (snd (download_news_and_comments s (Some nid) url links w)) (doc_path nid ''news.html'')
     = Some body"
proof -
  let ?folder = "os_path_join NEWS_DIR nid"
  let ?w2 = "w\<lparr>dirs := insert ?folder (dirs w),
               files := (files w)(os_path_join ?folder ''news.html'' \<mapsto> body)\<rparr>"
  have sv: "save_html s ?folder ''news.html'' body w = (Inr (), ?w2)"
    using assms(3,4) by (simp add: save_html_ok doc_path_def)
  have "files (snd (gather s (tasks_of ?folder links) (print (Links_found nid (length links)) ?w2)))
          (os_path_join ?folder ''news.html'') = Some body"
    using gather_files_other [OF news_not_task, of s ?folder links] by simp
  then show ?thesis
    using sv dnc_fetched [OF assms(1,2), of nid links w] by (simp add: doc_path_def)
qed

text \<open>With a store that works, the fan-out ends normally and each link leaves its own file.\<close>

lemma dnc_fan_out:
  assumes "http_get s url None = Inr body" "body \<noteq> []"
    and "makedirs_ok s (os_path_join NEWS_DIR nid)" "\<And>name. write_ok s (doc_path nid name)"
  shows "fst (download_news_and_comments s (Some nid) url links w) = Inr ()"
    and "i < length links \<Longrightarrow>
         files (snd (download_news_and_comments s (Some nid) url links w)) (doc_path nid (comment_name i)) =
           (case http_get s (links ! i) None of
              Inl e \<Rightarrow> files w (doc_path nid (comment_name i))
            | Inr html \<Rightarrow> if html = [] then files w (doc_path nid (comment_name i)) else Some html)"
proof -
  let ?folder = "os_path_join NEWS_DIR nid"
  let ?w2 = "w\<lparr>dirs := insert ?folder (dirs w),
               files := (files w)(os_path_join ?folder ''news.html'' \<mapsto> body)\<rparr>"
  let ?w3 = "print (Links_found nid (length links)) ?w2"
  have sv: "save_html s ?folder ''news.html'' body w = (Inr (), ?w2)"
    using assms(3,4) by (simp add: save_html_ok doc_path_def)
  have ok: "\<And>u f n. (u, f, n) \<in> set (tasks_of ?folder links) \<Longrightarrow>
      makedirs_ok s f \<and> write_ok s (os_path_join f n)"
    using assms(3,4) by (auto simp: set_tasks_of doc_path_def)
  have run: "download_news_and_comments s (Some nid) url links w =
      (if links = [] then (Inr (), print (No_links_found nid) ?w2)
       else gather s (tasks_of ?folder links) ?w3)"
    using sv dnc_fetched [OF assms(1,2), of nid links w] by simp
  have "fst (gather s (tasks_of ?folder links) ?w3) = Inr ()"
    by (rule gather_ok) (rule ok)
  with run show "fst (download_news_and_comments s (Some nid) url links w) = Inr ()"
    by simp
  assume i: "i < length links"
  then have mem: "(links ! i, ?folder, comment_name i) \<in> set (tasks_of ?folder links)"
    by (auto simp: set_tasks_of)
  have before: "files ?w3 (os_path_join ?folder (comment_name i)) =
      files w (os_path_join ?folder (comment_name i))"
    using comment_path_not_news [of ?folder i] by simp
  from i have "links \<noteq> []" by auto
  with run have "files (snd (download_news_and_comments s (Some nid) url links w))
        (os_path_join ?folder (comment_name i)) =
      files (snd (gather s (tasks_of ?folder links) ?w3)) (os_path_join ?folder (comment_name i))"
    by simp
  also have "\<dots> = (case http_get s (links ! i) None of
              Inl e \<Rightarrow> files ?w3 (os_path_join ?folder (comment_name i))
            | Inr html \<Rightarrow> if html = [] then files ?w3 (os_path_join ?folder (comment_name i))
                else Some html)"
    by (rule gather_files_own [OF ok distinct_tasks_of mem])
  finally show "files (snd (download_news_and_comments s (Some nid) url links w))
        (doc_path nid (comment_name i)) =
      (case http_get s (links ! i) None of
         Inl e \<Rightarrow> files w (doc_path nid (comment_name i))
       | Inr html \<Rightarrow> if html = [] then files w (doc_path nid (comment_name i)) else Some html)"
    unfolding before doc_path_def .
qed

subsection \<open>The file names of the examples\<close>

lemma comment_name_0: "comment_name 0 = ''comment_1.html''"
  by code_simp

lemma comment_name_1: "comment_name 1 = ''comment_2.html''"
  by code_simp

lemma comment_name_Suc_0: "comment_name (Suc 0) = ''comment_2.html''"
  by code_simp

lemma comment_name_2: "comment_name 2 = ''comment_3.html''"
  by code_simp

lemma doc_paths:
  "doc_path ''1'' (comment_name 0) = ''data/1/comment_1.html''"
  "doc_path ''1'' (comment_name 1) = ''data/1/comment_2.html''"
  "doc_path ''1'' (comment_name 2) = ''data/1/comment_3.html''"
  by (simp_all only: comment_name_0 comment_name_1 comment_name_2)
     (simp_all add: doc_path_def os_path_join_def startswith_def NEWS_DIR_def)

subsection \<open>parse_top_news\<close>

lemma valid_row_iff: "valid_row row \<longleftrightarrow> row_entry row \<noteq> None"
  by (simp add: valid_row_def row_entry_def split: option.splits)

lemma parse_rows_step:
  "parse_rows (row # rows) links =
     (case title_link row of
        None \<Rightarrow> parse_rows rows links
      | Some a \<Rightarrow>
          (case row_entry row of
             None \<Rightarrow> Inl KeyError
           | Some entry \<Rightarrow> parse_rows rows (links @ [entry])))"
  by (simp add: title_link_def row_entry_def tag_getitem_def split: option.splits)

lemma parse_rows_Inr:
  assumes "\<And>row. row \<in> set rows \<Longrightarrow> title_link row \<noteq> None \<Longrightarrow> valid_row row"
  shows "parse_rows rows links = Inr (links @ List.map_filter row_entry rows)"
  using assms
proof (induction rows arbitrary: links)
  case Nil
  show ?case by (simp add: map_filter_simps)
next
  case (Cons row rows)
  have rest: "parse_rows rows acc = Inr (acc @ List.map_filter row_entry rows)" for acc
    by (rule Cons.IH) (use Cons.prems in auto)
  show ?case
  proof (cases "title_link row")
    case None
    then have "row_entry row = None" by (simp add: row_entry_def)
    with None rest show ?thesis
      by (simp add: parse_rows_step map_filter_simps del: parse_rows.simps)
  next
    case (Some a)
    with Cons.prems [of row] have "valid_row row" by simp
    then obtain entry where "row_entry row = Some entry"
      by (auto simp: valid_row_iff)
    with Some rest show ?thesis
      by (simp add: parse_rows_step map_filter_simps del: parse_rows.simps)
  qed
qed

lemma parse_rows_Inl:
  assumes "row \<in> set rows" "title_link row \<noteq> None" "\<not> valid_row row"
  shows "parse_rows rows links = Inl KeyError"
  using assms(1)
proof (induction rows arbitrary: links)
  case Nil
  then show ?case by simp
next
  case (Cons r rows)
  show ?case
  proof (cases "r = row")
    case True
    with assms(2,3) show ?thesis
      by (auto simp: parse_rows_step valid_row_iff simp del: parse_rows.simps split: option.splits)
  next
    case False
    with Cons.prems have "row \<in> set rows" by simp
    then have "parse_rows rows acc = Inl KeyError" for acc by (rule Cons.IH)
    then show ?thesis
      by (simp add: parse_rows_step del: parse_rows.simps split: option.splits)
  qed
qed

lemma parse_top_news_rows:
  "html_parser s html = Some soup \<Longrightarrow>
   parse_top_news s html = parse_rows (take TOP_N (select_tr_athing soup)) []"
  by (simp add: parse_top_news_def BeautifulSoup_def)

lemma parse_top_news_rejected:
  "html_parser s html = None \<Longrightarrow> parse_top_news s html = Inl ParserRejectedMarkup"
  by (simp add: parse_top_news_def BeautifulSoup_def)

lemma length_map_filter_le: "length (List.map_filter f xs) \<le> length xs"
  by (simp add: map_filter_def)

text \<open>
  Where no title link lacks its target, the result is a positional truncation: the
  entries of the valid rows among the first \<open>TOP_N\<close> rows, in document order.
\<close>

lemma parse_top_news_positional:
  assumes "html_parser s html = Some soup"
    and "\<And>row. row \<in> set (take TOP_N (select_tr_athing soup)) \<Longrightarrow>
             title_link row \<noteq> None \<Longrightarrow> valid_row row"
  shows "parse_top_news s html =
           Inr (List.map_filter row_entry (take TOP_N (select_tr_athing soup)))"
    and "length (List.map_filter row_entry (take TOP_N (select_tr_athing soup))) \<le> TOP_N"
proof -
  show "parse_top_news s html =
      Inr (List.map_filter row_entry (take TOP_N (select_tr_athing soup)))"
    using parse_rows_Inr [OF assms(2), of _ "[]"] by (simp add: parse_top_news_rows [OF assms(1)])
  have "length (List.map_filter row_entry (take TOP_N (select_tr_athing soup)))
      \<le> length (take TOP_N (select_tr_athing soup))"
    by (rule length_map_filter_le)
  then show "length (List.map_filter row_entry (take TOP_N (select_tr_athing soup))) \<le> TOP_N"
    by simp
qed

lemma map_filter_all_Some:
  "(\<And>x. x \<in> set xs \<Longrightarrow> f x \<noteq> None) \<Longrightarrow> map Some (List.map_filter f xs) = map f xs"
  by (induction xs) (auto simp: map_filter_simps split: option.splits)

subsection \<open>get_comments_links\<close>

lemma set_add_set [simp]: "set (set_add x links) = insert x (set links)"
  by (auto simp: set_add_def)

lemma set_add_distinct [simp]: "distinct links \<Longrightarrow> distinct (set_add x links)"
  by (simp add: set_add_def)

lemma collect_links_set:
  "set (collect_links tags links) =
     set links \<union> {href. \<exists>a \<in> set tags. tag_get a ''href'' = Some href \<and> absolute href}"
proof (induction tags arbitrary: links)
  case Nil
  show ?case by simp
next
  case (Cons a tags)
  show ?case
  proof (cases "tag_get a ''href''")
    case None
    then show ?thesis by (auto simp: Cons.IH)
  next
    case (Some href)
    then show ?thesis by (auto simp: Cons.IH absolute_def)
  qed
qed

lemma collect_links_distinct: "distinct links \<Longrightarrow> distinct (collect_links tags links)"
  by (induction tags arbitrary: links) (auto split: option.splits)

text \<open>The iteration order of a set.\<close>

lemma set_iter_set [simp]: "set (set_iter s links) = set links"
  by (simp add: set_iter_def)

lemma set_iter_distinct [simp]: "distinct (set_iter s links) = distinct links"
  by (simp add: set_iter_def)

lemma set_iter_length [simp]: "length (set_iter s links) = length links"
  by (simp add: set_iter_def)

lemma set_iter_Nil [simp]: "set_iter s links = [] \<longleftrightarrow> links = []"
  by (metis length_0_conv set_iter_length)

text \<open>Every order of the elements of a set is the iteration order of some rank.\<close>

lemma set_iter_any_order:
  assumes "distinct links" "distinct order" "set order = set links"
  shows "\<exists>rank. set_iter (s\<lparr>set_rank := rank\<rparr>) links = order"
proof -
  define rank where "rank x = length (takeWhile (\<lambda>y. y \<noteq> x) order)" for x
  have nth: "rank (order ! i) = i" if i: "i < length order" for i
  proof -
    have "takeWhile (\<lambda>y. y \<noteq> order ! i) order = take i order"
    proof (rule takeWhile_eq_take_P_nth)
      fix j assume "j < i" "j < length order"
      with i assms(2) show "order ! j \<noteq> order ! i"
        by (simp add: nth_eq_iff_index_eq)
    qed simp
    with i show ?thesis by (simp add: rank_def)
  qed
  have "map rank order = [0..<length order]"
    by (rule nth_equalityI) (simp_all add: nth)
  then have sorted_order: "sorted (map rank order)" by simp
  have inj: "inj_on rank (set order)"
  proof (rule inj_onI)
    fix x y assume "x \<in> set order" "y \<in> set order" "rank x = rank y"
    then obtain i j where "i < length order" "order ! i = x" "j < length order" "order ! j = y"
      by (metis in_set_conv_nth)
    with \<open>rank x = rank y\<close> nth show "x = y" by metis
  qed
  have "sort_key rank links = order"
  proof -
    have "map rank (sort_key rank links) = map rank order"
    proof (rule sorted_distinct_set_unique)
      show "sorted (map rank (sort_key rank links))" by simp
      show "sorted (map rank order)" by (rule sorted_order)
      show "distinct (map rank (sort_key rank links))"
        using assms inj by (simp add: distinct_map)
      show "distinct (map rank order)"
        using assms inj by (simp add: distinct_map)
      show "set (map rank (sort_key rank links)) = set (map rank order)"
        using assms(3) by simp
    qed
    moreover have "inj_on rank (set (sort_key rank links) \<union> set order)"
      using inj assms(3) by simp
    ultimately show ?thesis
      by (rule map_inj_on)
  qed
  then show ?thesis
    by (auto simp: set_iter_def)
qed

lemma get_comments_links_fetched:
  assumes "http_get s (BASE_URL @ ''item?id='' @ str_opt news_id) (Some headers) = Inr html"
    and "html_parser s html = Some soup"
  shows "fst (get_comments_links s news_id w) =
           Inr (set_iter s (collect_links (find_all_a_href soup) []))"
  using assms by (simp add: get_comments_links_def fetch_Inr BeautifulSoup_def Let_def)

lemma get_comments_links_rejected:
  assumes "http_get s (BASE_URL @ ''item?id='' @ str_opt news_id) (Some headers) = Inr html"
    and "html_parser s html = None"
  shows "fst (get_comments_links s news_id w) = Inl ParserRejectedMarkup"
  using assms by (simp add: get_comments_links_def fetch_Inr BeautifulSoup_def Let_def)

lemma processed_get_comments_links [simp]:
  "processed (snd (get_comments_links s news_id w)) = processed w"
  by (cases "http_get s (BASE_URL @ ''item?id='' @ str_opt news_id) (Some headers)")
     (auto simp: get_comments_links_def fetch_Inr fetch_Inl BeautifulSoup_def Let_def
        processed_print split: sum.splits option.splits)

lemma files_get_comments_links [simp]:
  "files (snd (get_comments_links s news_id w)) = files w"
  by (cases "http_get s (BASE_URL @ ''item?id='' @ str_opt news_id) (Some headers)")
     (auto simp: get_comments_links_def fetch_Inr fetch_Inl BeautifulSoup_def Let_def
        split: sum.splits option.splits)

lemma get_comments_links_result:
  "fst (get_comments_links s news_id w) = fst (get_comments_links s news_id w')"
  by (cases "http_get s (BASE_URL @ ''item?id='' @ str_opt news_id) (Some headers)")
     (auto simp: get_comments_links_def fetch_Inr fetch_Inl BeautifulSoup_def Let_def
        split: sum.splits option.splits)

subsection \<open>The loop over the new entries\<close>

lemma for_new_news_step:
  "for_new_news s ((nid, url) # rest) seen w =
     (case get_comments_links s nid (print (Downloading_news nid url) w) of
        (Inl e, w2) \<Rightarrow> (Inl e, w2)
      | (Inr news_links, w2) \<Rightarrow>
          (case download_news_and_comments s nid url news_links w2 of
             (Inl e, w3) \<Rightarrow> (Inl e, w3)
           | (Inr u, w3) \<Rightarrow> for_new_news s rest (insert nid seen) w3))"
  by (simp add: Let_def)

declare for_new_news.simps(2) [simp del]

lemma for_new_news_Inr:
  "for_new_news s es seen w = (Inr seen', w') \<Longrightarrow>
   seen' = seen \<union> fst ` set es \<and> processed w' = processed w @ map fst es"
proof (induction es arbitrary: seen w)
  case Nil
  then show ?case by simp
next
  case (Cons entry es)
  obtain nid url where entry: "entry = (nid, url)" by (cases entry)
  let ?w1 = "print (Downloading_news nid url) w"
  obtain r2 w2 where g: "get_comments_links s nid ?w1 = (r2, w2)" by force
  have p2: "processed w2 = processed w @ [nid]"
    using processed_get_comments_links [of s nid ?w1] g by (simp add: processed_print)
  from Cons.prems entry g obtain links where r2: "r2 = Inr links"
    by (cases r2) (simp_all add: for_new_news_step)
  obtain r3 w3 where d: "download_news_and_comments s nid url links w2 = (r3, w3)" by force
  have p3: "processed w3 = processed w @ [nid]"
    using processed_dnc [of s nid url links w2] d p2 by simp
  from Cons.prems entry g r2 d have rest: "for_new_news s es (insert nid seen) w3 = (Inr seen', w')"
    by (cases r3) (simp_all add: for_new_news_step)
  from Cons.IH [OF rest] p3 entry show ?case by auto
qed

lemma for_new_news_count:
  "nid \<notin> fst ` set es \<Longrightarrow>
   count_list (processed (snd (for_new_news s es seen w))) nid = count_list (processed w) nid"
proof (induction es arbitrary: seen w)
  case Nil
  show ?case by simp
next
  case (Cons entry es)
  obtain n url where entry: "entry = (n, url)" by (cases entry)
  with Cons.prems have ne: "n \<noteq> nid" and rest: "nid \<notin> fst ` set es" by auto
  let ?w1 = "print (Downloading_news n url) w"
  obtain r2 w2 where g: "get_comments_links s n ?w1 = (r2, w2)" by force
  have p2: "processed w2 = processed w @ [n]"
    using processed_get_comments_links [of s n ?w1] g by (simp add: processed_print)
  with ne have c2: "count_list (processed w2) nid = count_list (processed w) nid" by simp
  show ?case
  proof (cases r2)
    case (Inl e)
    with g entry c2 show ?thesis by (simp add: for_new_news_step)
  next
    case (Inr links)
    obtain r3 w3 where d: "download_news_and_comments s n url links w2 = (r3, w3)" by force
    have p3: "processed w3 = processed w2"
      using processed_dnc [of s n url links w2] d by simp
    show ?thesis
    proof (cases r3)
      case (Inl e)
      with g Inr d entry c2 p3 show ?thesis by (simp add: for_new_news_step)
    next
      case r3: (Inr u)
      have "count_list (processed (snd (for_new_news s es (insert n seen) w3))) nid =
          count_list (processed w3) nid"
        by (rule Cons.IH [OF rest])
      with g Inr d r3 entry c2 p3 show ?thesis by (simp add: for_new_news_step)
    qed
  qed
qed

lemma dnc_ok:
  assumes "\<And>p. makedirs_ok s p" "\<And>p. write_ok s p"
  shows "fst (download_news_and_comments s (Some nid) url links w) = Inr ()"
proof (cases "http_get s url None")
  case (Inl e)
  then show ?thesis using dnc_not_fetched(1) [of s url e nid links w] by simp
next
  case (Inr body)
  show ?thesis
  proof (cases "body = []")
    case True
    with Inr show ?thesis using dnc_not_fetched(1) [of s url undefined nid links w] by simp
  next
    case False
    show ?thesis
      by (rule dnc_fan_out(1) [OF Inr False]) (rule assms)+
  qed
qed

lemma for_new_news_ok:
  assumes ok: "\<And>p. makedirs_ok s p" "\<And>p. write_ok s p"
    and threads: "\<And>nid url. (nid, url) \<in> set es \<Longrightarrow>
       \<exists>i page soup. nid = Some i
          \<and> http_get s (BASE_URL @ ''item?id='' @ i) (Some headers) = Inr page
          \<and> html_parser s page = Some soup"
  shows "\<exists>seen' w'. for_new_news s es seen w = (Inr seen', w')"
  using threads
proof (induction es arbitrary: seen w)
  case Nil
  show ?case by simp
next
  case (Cons entry es)
  obtain nid url where entry: "entry = (nid, url)" by (cases entry)
  with Cons.prems [of nid url] obtain i page soup where nid: "nid = Some i"
    and page: "http_get s (BASE_URL @ ''item?id='' @ str_opt nid) (Some headers) = Inr page"
    and soup: "html_parser s page = Some soup"
    by (auto simp: str_opt_def)
  let ?w1 = "print (Downloading_news nid url) w"
  obtain r2 w2 where g: "get_comments_links s nid ?w1 = (r2, w2)" by force
  from get_comments_links_fetched [OF page soup, of ?w1] g obtain links where r2: "r2 = Inr links"
    by simp
  obtain r3 w3 where d: "download_news_and_comments s nid url links w2 = (r3, w3)" by force
  from dnc_ok [OF ok, of i url links w2] d nid have r3: "r3 = Inr ()" by simp
  have "\<exists>seen' w'. for_new_news s es (insert nid seen) w3 = (Inr seen', w')"
  proof (rule Cons.IH)
    fix n u
    assume "(n, u) \<in> set es"
    then have "(n, u) \<in> set (entry # es)" by simp
    then show "\<exists>i page soup. n = Some i
        \<and> http_get s (BASE_URL @ ''item?id='' @ i) (Some headers) = Inr page
        \<and> html_parser s page = Some soup"
      by (rule Cons.prems)
  qed
  with g r2 d r3 entry show ?case by (simp add: for_new_news_step)
qed

lemma for_new_news_raises:
  assumes mem: "(nid, url) \<in> set es"
    and raises: "\<And>w links w'. fst (get_comments_links s nid w) = Inr links \<Longrightarrow>
       \<exists>e. fst (download_news_and_comments s nid url links w') = Inl e"
  shows "\<exists>e. fst (for_new_news s es seen w) = Inl e"
  using mem
proof (induction es arbitrary: seen w)
  case Nil
  then show ?case by simp
next
  case (Cons entry es)
  obtain n u where entry: "entry = (n, u)" by (cases entry)
  let ?w1 = "print (Downloading_news n u) w"
  obtain r2 w2 where g: "get_comments_links s n ?w1 = (r2, w2)" by force
  show ?case
  proof (cases r2)
    case (Inl e)
    with g entry show ?thesis by (simp add: for_new_news_step)
  next
    case (Inr links)
    obtain r3 w3 where d: "download_news_and_comments s n u links w2 = (r3, w3)" by force
    show ?thesis
    proof (cases r3)
      case (Inl e)
      with g Inr d entry show ?thesis by (simp add: for_new_news_step)
    next
      case r3: (Inr x)
      have "(n, u) \<noteq> (nid, url)"
      proof
        assume "(n, u) = (nid, url)"
        with g Inr have "fst (get_comments_links s nid ?w1) = Inr links" by simp
        from raises [OF this, of w2] \<open>(n, u) = (nid, url)\<close> d r3 show False by simp
      qed
      with Cons.prems entry have "(nid, url) \<in> set es" by auto
      then have "\<exists>e. fst (for_new_news s es (insert n seen) w3) = Inl e" by (rule Cons.IH)
      with g Inr d r3 entry show ?thesis by (simp add: for_new_news_step)
    qed
  qed
qed

subsection \<open>One cycle\<close>

lemma main_cycle_skip:
  "http_get s BASE_URL None = Inr [] \<or> http_get s BASE_URL None = Inl e \<Longrightarrow>
   main_cycle s seen w =
     (Inr seen, sleep CRAWL_INTERVAL (print Main_page_parsing_error
        (snd (fetch s BASE_URL None (print Main_page_parsing w)))))"
  by (auto simp: main_cycle_def fetch_Inr fetch_Inl)

lemma main_cycle_parse_error:
  "http_get s BASE_URL None = Inr html \<Longrightarrow> html \<noteq> [] \<Longrightarrow> parse_top_news s html = Inl e \<Longrightarrow>
   main_cycle s seen w = (Inl e, print Main_page_parsing w)"
  by (simp add: main_cycle_def fetch_Inr)

lemma main_cycle_parsed:
  "http_get s BASE_URL None = Inr html \<Longrightarrow> html \<noteq> [] \<Longrightarrow> parse_top_news s html = Inr top_news \<Longrightarrow>
   main_cycle s seen w =
     (if new_news_of top_news seen \<noteq> [] then
        (case for_new_news s (new_news_of top_news seen) seen
                (print (News_found (length (new_news_of top_news seen))) (print Main_page_parsing w)) of
           (Inl e, w2) \<Rightarrow> (Inl e, w2)
         | (Inr seen', w2) \<Rightarrow> (Inr seen', sleep CRAWL_INTERVAL w2))
      else (Inr seen, sleep CRAWL_INTERVAL (print No_unprocessed_news (print Main_page_parsing w))))"
  by (simp add: main_cycle_def fetch_Inr Let_def)

lemma new_news_of_fresh: "fst ` set (new_news_of top_news seen) \<inter> seen = {}"
  by (auto simp: new_news_of_def)

text \<open>The four ways a cycle can go.\<close>

lemma main_cycle_cases:
  obtains (skip) e where "http_get s BASE_URL None = Inr [] \<or> http_get s BASE_URL None = Inl e"
  | (parse_error) html e where "http_get s BASE_URL None = Inr html" "html \<noteq> []"
      "parse_top_news s html = Inl e"
  | (parsed) html top_news where "http_get s BASE_URL None = Inr html" "html \<noteq> []"
      "parse_top_news s html = Inr top_news"
proof (cases "http_get s BASE_URL None")
  case (Inl e)
  then show ?thesis using skip by blast
next
  case (Inr html)
  show ?thesis
  proof (cases "html = []")
    case True
    with Inr show ?thesis using skip by blast
  next
    case False
    with Inr show ?thesis
      using parse_error parsed by (cases "parse_top_news s html") blast+
  qed
qed

lemma main_cycle_Inr:
  assumes "main_cycle s seen w = (Inr seen', w')"
  shows "\<exists>ids. processed w' = processed w @ ids \<and> seen' = seen \<union> set ids \<and> set ids \<inter> seen = {}"
proof (cases rule: main_cycle_cases [of s])
  case (skip e)
  from assms main_cycle_skip [OF skip, of seen w]
  have "seen' = seen" "processed w' = processed w"
    by (auto simp: processed_print)
  then show ?thesis by simp
next
  case (parse_error html e)
  with assms show ?thesis by (simp add: main_cycle_parse_error)
next
  case (parsed html top_news)
  note run = main_cycle_parsed [OF parsed, of seen w]
  let ?new = "new_news_of top_news seen"
  let ?w1 = "print (News_found (length ?new)) (print Main_page_parsing w)"
  show ?thesis
  proof (cases "?new = []")
    case True
    with assms run have "seen' = seen" "processed w' = processed w"
      by (auto simp: processed_print)
    then show ?thesis by simp
  next
    case False
    obtain r w2 where f: "for_new_news s ?new seen ?w1 = (r, w2)" by force
    with assms run False have r: "r = Inr seen'" and w': "w' = sleep CRAWL_INTERVAL w2"
      by (cases r; simp)+
    from for_new_news_Inr [OF f [unfolded r]]
    have "seen' = seen \<union> fst ` set ?new" "processed w2 = processed w @ map fst ?new"
      by (simp_all add: processed_print)
    with w' new_news_of_fresh [of top_news seen] show ?thesis
      by (intro exI [of _ "map fst ?new"]) simp
  qed
qed

lemma main_cycle_count:
  assumes "nid \<in> seen"
  shows "count_list (processed (snd (main_cycle s seen w))) nid = count_list (processed w) nid"
proof (cases rule: main_cycle_cases [of s])
  case (skip e)
  then show ?thesis by (simp add: main_cycle_skip processed_print)
next
  case (parse_error html e)
  then show ?thesis by (simp add: main_cycle_parse_error processed_print)
next
  case (parsed html top_news)
  note run = main_cycle_parsed [OF parsed, of seen w]
  let ?new = "new_news_of top_news seen"
  let ?w1 = "print (News_found (length ?new)) (print Main_page_parsing w)"
  from assms new_news_of_fresh [of top_news seen] have fresh: "nid \<notin> fst ` set ?new" by auto
  have c: "count_list (processed (snd (for_new_news s ?new seen ?w1))) nid =
      count_list (processed w) nid"
    using for_new_news_count [OF fresh, of s seen ?w1] by (simp add: processed_print)
  obtain r w2 where f: "for_new_news s ?new seen ?w1 = (r, w2)" by force
  with c have "count_list (processed w2) nid = count_list (processed w) nid" by simp
  with run f show ?thesis
    by (cases r) (simp_all add: processed_print)
qed

subsection \<open>The loop\<close>

lemma main_loop_append:
  "main_loop (a @ b) seen w =
     (case main_loop a seen w of
        (Inl e, w1) \<Rightarrow> (Inl e, w1)
      | (Inr seen1, w1) \<Rightarrow> main_loop b seen1 w1)"
  by (induction a arbitrary: seen w) (auto split: prod.splits sum.splits)

lemma main_loop_Inr:
  "main_loop ss seen w = (Inr seen', w') \<Longrightarrow>
   \<exists>ids. processed w' = processed w @ ids \<and> seen' = seen \<union> set ids"
proof (induction ss arbitrary: seen w)
  case Nil
  then show ?case by simp
next
  case (Cons s ss)
  obtain r w1 where c: "main_cycle s seen w = (r, w1)" by force
  with Cons.prems obtain seen1 where r: "r = Inr seen1"
    and rest: "main_loop ss seen1 w1 = (Inr seen', w')"
    by (cases r) simp_all
  from main_cycle_Inr [OF c [unfolded r]] obtain ids1
    where 1: "processed w1 = processed w @ ids1" "seen1 = seen \<union> set ids1" by blast
  from Cons.IH [OF rest] obtain ids2
    where 2: "processed w' = processed w1 @ ids2" "seen' = seen1 \<union> set ids2" by blast
  from 1 2 show ?case
    by (intro exI [of _ "ids1 @ ids2"]) auto
qed

lemma main_loop_count:
  "nid \<in> seen \<Longrightarrow>
   count_list (processed (snd (main_loop ss seen w))) nid = count_list (processed w) nid"
proof (induction ss arbitrary: seen w)
  case Nil
  show ?case by simp
next
  case (Cons s ss)
  obtain r w1 where c: "main_cycle s seen w = (r, w1)" by force
  have c1: "count_list (processed w1) nid = count_list (processed w) nid"
    using main_cycle_count [OF Cons.prems, of s w] c by simp
  show ?case
  proof (cases r)
    case (Inl e)
    with c c1 show ?thesis by simp
  next
    case (Inr seen1)
    from main_cycle_Inr [OF c [unfolded Inr]] Cons.prems have "nid \<in> seen1" by auto
    from Cons.IH [OF this, of w1] c Inr c1 show ?thesis by simp
  qed
qed

declare for_new_news.simps(2) [simp]

section \<open>An empty body counts as a failed fetch\<close>

text \<open>
  Claim C10, as amended. A fetch of the front page, of a primary document or of a
  fan-out link (the fetches made without headers) that succeeds at the transport
  level with the empty string as body is treated exactly like a fetch that failed: in
  both cases (the hypothesis names the two) the front page makes the cycle skip to
  its sleep with the seen set unchanged, the primary document makes
  \<open>download_news_and_comments\<close> stop after the message of line 51 with no file written,
  and a fan-out link makes \<open>download_and_save\<close> print the message of line 103 and
  write no file. The only difference between the two cases is the line \<open>fetch\<close> itself
  prints for a failure.
\<close>

theorem empty_body_like_failure:
  assumes "http_get session url None = Inr [] \<or> http_get session url None = Inl e"
  shows "(url = BASE_URL \<longrightarrow>
            main_cycle session seen w =
              (Inr seen, sleep CRAWL_INTERVAL (print Main_page_parsing_error
                   (snd (fetch session url None (print Main_page_parsing w))))))
       \<and> download_news_and_comments session (Some nid) url links w =
            (Inr (), print (Failed_to_get_news url) (snd (fetch session url None w)))
       \<and> files (snd (download_news_and_comments session (Some nid) url links w)) = files w
       \<and> download_and_save session url folder filename w =
            (Inr (), print (Failed_to_download url) (snd (fetch session url None w)))
       \<and> files (snd (download_and_save session url folder filename w)) = files w"
  using assms
  by (auto simp: main_cycle_def download_news_and_comments_def download_and_save_def
        fetch_Inr fetch_Inl Let_def)

theorem empty_body_like_failure_witness:
  "http_get empty_front BASE_URL None = Inr []
   \<and> main_cycle empty_front {} w0 =
       (Inr {}, sleep CRAWL_INTERVAL (print Main_page_parsing_error (print Main_page_parsing w0)))
   \<and> http_get empty_primary ''http://n.example/1'' None = Inr []
   \<and> download_news_and_comments empty_primary (Some ''1'') ''http://n.example/1''
         [''https://a.example/x''] w0 =
       (Inr (), print (Failed_to_get_news ''http://n.example/1'') w0)
   \<and> files (snd (download_news_and_comments empty_primary (Some ''1'') ''http://n.example/1''
         [''https://a.example/x''] w0)) = Map.empty
   \<and> download_and_save empty_primary ''http://n.example/1'' ''data/1'' ''comment_1.html'' w0 =
       (Inr (), print (Failed_to_download ''http://n.example/1'') w0)
   \<and> files (snd (download_and_save empty_primary ''http://n.example/1'' ''data/1''
         ''comment_1.html'' w0)) = Map.empty"
proof -
  have front: "http_get empty_front BASE_URL None = Inr []"
    by (simp add: ex_defs BASE_URL_def)
  have primary: "http_get empty_primary ''http://n.example/1'' None = Inr []"
    by (simp add: ex_defs)
  have w0_files: "files w0 = Map.empty"
    by (simp add: w0_def)
  from front have h1: "http_get empty_front BASE_URL None = Inr [] \<or>
      http_get empty_front BASE_URL None = Inl []" ..
  from primary have h2: "http_get empty_primary ''http://n.example/1'' None = Inr [] \<or>
      http_get empty_primary ''http://n.example/1'' None = Inl []" ..
  show ?thesis
    using front primary w0_files
      empty_body_like_failure [OF h1, of "{}" w0 "''1''" "[]" "''data/1''" "''comment_1.html''"]
      empty_body_like_failure [OF h2, of "{}" w0 "''1''" "[''https://a.example/x'']" "''data/1''"
        "''comment_1.html''"]
    by (simp add: fetch_Inr)
qed

text \<open>
  Claim C10 as stated (every fetch) fails at the one fetch it does not list, that of
  the thread page: an empty body there is parsed like any other page and the entry is
  processed with the links of the empty document, while a failed fetch raises
  \<open>TypeError\<close> and ends the run.
\<close>

theorem empty_body_like_failure_counterexample:
  "http_get thread2_empty (BASE_URL @ ''item?id='' @ str_opt (Some ''2'')) (Some headers) = Inr []
   \<and> fst (get_comments_links thread2_empty (Some ''2'') w0) = Inr []
   \<and> fst (main [thread2_empty] w0) = Inr {Some ''1'', Some ''2''}
   \<and> files (snd (main [thread2_empty] w0)) ''data/2/news.html'' = Some ''news two''
   \<and> http_get thread2_down (BASE_URL @ ''item?id='' @ str_opt (Some ''2'')) (Some headers)
       = Inl ''500''
   \<and> fst (get_comments_links thread2_down (Some ''2'') w0) = Inl TypeError
   \<and> fst (main [thread2_down] w0) = Inl TypeError"
  by (simp add: ex_defs run_defs Let_def str_nat.simps insert_commute)

section \<open>A thread page that could not be fetched\<close>

text \<open>
  Claim C1 says that \<open>get_comments_links\<close> returns the empty set when the thread page
  could not be fetched, and that the entry is then processed with no links. In the
  code the message of line 86 is printed and line 87 is reached with \<open>page = None\<close>:
  \<open>BeautifulSoup(None, 'html.parser')\<close> raises \<open>TypeError\<close>. The exception leaves
  \<open>get_comments_links\<close> and the \<open>for\<close> loop of \<open>main\<close>; the entry's download is never
  started and no file is written for it.
\<close>

theorem thread_fetch_failure_raises:
  assumes "http_get session (BASE_URL @ ''item?id='' @ str_opt news_id) (Some headers) = Inl e"
  shows "fst (get_comments_links session news_id w) = Inl TypeError
       \<and> fst (for_new_news session ((news_id, url) # rest) seen w) = Inl TypeError
       \<and> files (snd (for_new_news session ((news_id, url) # rest) seen w)) = files w"
  using assms
  by (simp add: get_comments_links_def fetch_Inl BeautifulSoup_def Let_def)

theorem thread_fetch_failure_raises_witness:
  "http_get thread2_down (BASE_URL @ ''item?id='' @ str_opt (Some ''2'')) (Some headers) = Inl ''500''
   \<and> fst (get_comments_links thread2_down (Some ''2'') w0) = Inl TypeError
   \<and> fst (for_new_news thread2_down [(Some ''2'', ''http://n.example/2'')] {Some ''1''} w0)
       = Inl TypeError
   \<and> files (snd (for_new_news thread2_down [(Some ''2'', ''http://n.example/2'')] {Some ''1''} w0))
       = files w0"
proof -
  have h: "http_get thread2_down (BASE_URL @ ''item?id='' @ str_opt (Some ''2'')) (Some headers)
      = Inl ''500''"
    by (simp add: ex_defs BASE_URL_def str_opt_def)
  show ?thesis
    using h thread_fetch_failure_raises [OF h, of w0 "''http://n.example/2''" "[]" "{Some ''1''}"]
    by simp
qed

text \<open>
  The end-to-end scenario of the specification (the thread page of entry 2 cannot be
  fetched): the run ends with \<open>TypeError\<close> in its first cycle, entry 1 is archived and
  nothing is written for entry 2.
\<close>

lemma thread2_down_run:
  "fst (main [thread2_down, ex_session] w0) = Inl TypeError
   \<and> files (snd (main [thread2_down, ex_session] w0)) ''data/1/news.html'' = Some ''news one''
   \<and> files (snd (main [thread2_down, ex_session] w0)) ''data/2/news.html'' = None"
  by (simp add: ex_defs run_defs Let_def str_nat.simps)

section \<open>The primary document\<close>

text \<open>
  Claim C6, as amended. For every entry processed by \<open>download_news_and_comments\<close>:
  if the fetch of the primary url fails or brings an empty body, the function returns
  normally and neither a file nor a directory is created; if the fetch brings a body
  that is not empty, and the entry's folder can be made and \<open>news.html\<close> written,
  then \<open>news.html\<close> holds that body afterwards, whatever the links are (none, or
  any number) and however the fan-out ends.
\<close>

theorem primary_document:
  "(http_get session url None = Inl e \<or> http_get session url None = Inr [] \<longrightarrow>
      fst (download_news_and_comments session (Some nid) url links w) = Inr ()
      \<and> files (snd (download_news_and_comments session (Some nid) url links w)) = files w
      \<and> dirs (snd (download_news_and_comments session (Some nid) url links w)) = dirs w)
   \<and> (http_get session url None = Inr body \<and> body \<noteq> []
        \<and> makedirs_ok session (os_path_join NEWS_DIR nid)
        \<and> write_ok session (doc_path nid ''news.html'') \<longrightarrow>
      files (snd (download_news_and_comments session (Some nid) url links w))
        (doc_path nid ''news.html'') = Some body)"
proof (intro conjI impI)
  assume "http_get session url None = Inl e \<or> http_get session url None = Inr []"
  then have nf: "http_get session url None = Inr [] \<or> http_get session url None = Inl e"
    by blast
  show "fst (download_news_and_comments session (Some nid) url links w) = Inr ()"
    by (rule dnc_not_fetched(1) [OF nf])
  show "files (snd (download_news_and_comments session (Some nid) url links w)) = files w"
    by (rule dnc_not_fetched(2) [OF nf])
  show "dirs (snd (download_news_and_comments session (Some nid) url links w)) = dirs w"
    by (rule dnc_not_fetched(3) [OF nf])
next
  assume "http_get session url None = Inr body \<and> body \<noteq> []
     \<and> makedirs_ok session (os_path_join NEWS_DIR nid)
     \<and> write_ok session (doc_path nid ''news.html'')"
  then show "files (snd (download_news_and_comments session (Some nid) url links w))
      (doc_path nid ''news.html'') = Some body"
    by (simp add: dnc_news_written)
qed

theorem primary_document_witness:
  "http_get ex_session ''http://nowhere.example/'' None = Inl ''404''
   \<and> fst (download_news_and_comments ex_session (Some ''7'') ''http://nowhere.example/''
        [''https://a.example/x''] w0) = Inr ()
   \<and> files (snd (download_news_and_comments ex_session (Some ''7'') ''http://nowhere.example/''
        [''https://a.example/x''] w0)) = files w0
   \<and> dirs (snd (download_news_and_comments ex_session (Some ''7'') ''http://nowhere.example/''
        [''https://a.example/x''] w0)) = dirs w0
   \<and> http_get ex_session ''http://n.example/2'' None = Inr ''news two''
   \<and> files (snd (download_news_and_comments ex_session (Some ''2'') ''http://n.example/2'' [] w0))
        (doc_path ''2'' ''news.html'') = Some ''news two''
   \<and> files (snd (download_news_and_comments ex_session (Some ''1'') ''http://n.example/1''
        [''https://a.example/x'', ''http://b.example/x'', ''http://c.example/x''] w0))
        (doc_path ''1'' ''news.html'') = Some ''news one''
   \<and> doc_path ''1'' ''news.html'' = ''data/1/news.html''"
proof -
  have a: "http_get ex_session ''http://nowhere.example/'' None = Inl ''404''"
    and b: "http_get ex_session ''http://n.example/2'' None = Inr ''news two''"
    and c: "http_get ex_session ''http://n.example/1'' None = Inr ''news one''"
    and ok: "makedirs_ok ex_session p" "write_ok ex_session q" for p q
    by (simp_all add: ex_defs)
  have d: "doc_path ''1'' ''news.html'' = ''data/1/news.html''"
    by (simp add: doc_path_def os_path_join_def startswith_def NEWS_DIR_def)
  show ?thesis
    using a b c d ok
      primary_document [of ex_session "''http://nowhere.example/''" "''404''" "''7''"
        "[''https://a.example/x'']" w0 "[]"]
      primary_document [of ex_session "''http://n.example/2''" "[]" "''2''" "[]" w0 "''news two''"]
      primary_document [of ex_session "''http://n.example/1''" "[]" "''1''"
        "[''https://a.example/x'', ''http://b.example/x'', ''http://c.example/x'']" w0 "''news one''"]
    by simp
qed

text \<open>
  Claim C6 as stated fails: a fetch that succeeds with an empty body is a successful
  fetch (\<open>fetch\<close> returns the string, not \<open>None\<close>), yet \<open>news.html\<close> is not written.
\<close>

theorem primary_document_counterexample:
  "fetch empty_primary ''http://n.example/1'' None w0 = (Some [], w0)
   \<and> fst (download_news_and_comments empty_primary (Some ''1'') ''http://n.example/1'' [] w0) = Inr ()
   \<and> files (snd (download_news_and_comments empty_primary (Some ''1'') ''http://n.example/1'' [] w0))
        ''data/1/news.html'' = None"
  by (simp add: ex_defs download_news_and_comments_def fetch_def Let_def)

section \<open>The fan-out\<close>



section \<open>Link extraction\<close>

text \<open>
  Claim C9, as amended. For every thread page that was fetched and that the parser
  accepts, \<open>get_comments_links\<close> returns the set of the targets of the document's
  hyperlinks that start with \<open>http://\<close> or \<open>https://\<close>: exactly those targets, each
  once (the list that stands for the set has no repetition).
\<close>

theorem links_are_the_absolute_targets:
  assumes "http_get session (BASE_URL @ ''item?id='' @ str_opt news_id) (Some headers) = Inr html"
    and "html_parser session html = Some soup"
  shows "\<exists>links. fst (get_comments_links session news_id w) = Inr links \<and> distinct links
     \<and> set links =
         {href. \<exists>a \<in> set (descendants soup).
                  is_tag a ''a'' \<and> tag_get a ''href'' = Some href
                  \<and> (startswith href ''http://'' \<or> startswith href ''https://'')}"
proof -
  let ?links = "set_iter session (collect_links (find_all_a_href soup) [])"
  have "fst (get_comments_links session news_id w) = Inr ?links"
    by (rule get_comments_links_fetched [OF assms])
  moreover have "distinct ?links"
    by (simp add: collect_links_distinct)
  moreover have "set ?links =
      {href. \<exists>a \<in> set (descendants soup).
               is_tag a ''a'' \<and> tag_get a ''href'' = Some href
               \<and> (startswith href ''http://'' \<or> startswith href ''https://'')}"
    by (auto simp: collect_links_set find_all_a_href_def absolute_def)
  ultimately show ?thesis by blast
qed

theorem links_are_the_absolute_targets_witness:
  "http_get ex_session (BASE_URL @ ''item?id='' @ str_opt (Some ''1'')) (Some headers) = Inr thread_html
   \<and> html_parser ex_session thread_html = Some thread_doc
   \<and> fst (get_comments_links ex_session (Some ''1'') w0) =
       Inr [''http://b.example/x'', ''https://a.example/x'', ''http://c.example/x'']
   \<and> length [''http://b.example/x'', ''https://a.example/x'', ''http://c.example/x''] = 3
   \<and> {href. \<exists>a \<in> set (descendants thread_doc).
                  is_tag a ''a'' \<and> tag_get a ''href'' = Some href
                  \<and> (startswith href ''http://'' \<or> startswith href ''https://'')} =
       {''https://a.example/x'', ''http://b.example/x'', ''http://c.example/x''}"
proof -
  have h: "http_get ex_session (BASE_URL @ ''item?id='' @ str_opt (Some ''1'')) (Some headers)
      = Inr thread_html"
    by (simp add: ex_session_def ex_get_def BASE_URL_def str_opt_def)
  have p: "html_parser ex_session thread_html = Some thread_doc"
    by (simp add: ex_defs)
  have ev: "fst (get_comments_links ex_session (Some ''1'') w0) =
      Inr [''http://b.example/x'', ''https://a.example/x'', ''http://c.example/x'']"
    by (simp add: ex_defs run_defs Let_def)
  from links_are_the_absolute_targets [OF h p, of w0] ev
  have "set [''http://b.example/x'', ''https://a.example/x'', ''http://c.example/x''] =
      {href. \<exists>a \<in> set (descendants thread_doc).
               is_tag a ''a'' \<and> tag_get a ''href'' = Some href
               \<and> (startswith href ''http://'' \<or> startswith href ''https://'')}"
    by auto
  then have "{href. \<exists>a \<in> set (descendants thread_doc).
               is_tag a ''a'' \<and> tag_get a ''href'' = Some href
               \<and> (startswith href ''http://'' \<or> startswith href ''https://'')} =
      set [''http://b.example/x'', ''https://a.example/x'', ''http://c.example/x'']"
    by (rule sym)
  also have "\<dots> = {''https://a.example/x'', ''http://b.example/x'', ''http://c.example/x''}"
    by auto
  finally have "{href. \<exists>a \<in> set (descendants thread_doc).
               is_tag a ''a'' \<and> tag_get a ''href'' = Some href
               \<and> (startswith href ''http://'' \<or> startswith href ''https://'')} =
      {''https://a.example/x'', ''http://b.example/x'', ''http://c.example/x''}" .
  with h p ev show ?thesis by (intro conjI) simp_all
qed

text \<open>
  Claim C9 as stated (every thread-page document) fails on a page that was fetched but
  whose markup the parser rejects: line 87 raises, and no set of links is returned.
\<close>

theorem links_are_the_absolute_targets_counterexample:
  "http_get thread2_rejected (BASE_URL @ ''item?id='' @ str_opt (Some ''2'')) (Some headers)
       = Inr ''<![foo[bar]]>''
   \<and> html_parser thread2_rejected ''<![foo[bar]]>'' = None
   \<and> fst (get_comments_links thread2_rejected (Some ''2'') w0) = Inl ParserRejectedMarkup"
  by (simp add: ex_defs run_defs Let_def)

section \<open>The front page\<close>

text \<open>
  Claim C4, as amended. For every front-page document whose first \<open>TOP_N\<close> rows are all
  valid (each has a title link with a target), \<open>parse_top_news\<close> returns exactly \<open>TOP_N\<close>
  entries, in document order: entry \<open>i\<close> is the pair of the id attribute of row \<open>i\<close>
  (\<open>None\<close> when the row has none) and the target of its title link. Ids and urls are
  not empty where the rows' id attributes and targets are not.
\<close>

theorem parse_top_news_full:
  assumes "html_parser session html = Some soup"
    and "TOP_N \<le> length (select_tr_athing soup)"
    and "\<forall>row \<in> set (take TOP_N (select_tr_athing soup)). valid_row row"
  shows "\<exists>es. parse_top_news session html = Inr es \<and> length es = TOP_N
     \<and> map Some es = map row_entry (take TOP_N (select_tr_athing soup))
     \<and> ((\<forall>row \<in> set (take TOP_N (select_tr_athing soup)).
            \<exists>i u. row_entry row = Some (Some i, u) \<and> i \<noteq> [] \<and> u \<noteq> [])
          \<longrightarrow> (\<forall>(nid, url) \<in> set es. \<exists>i. nid = Some i \<and> i \<noteq> [] \<and> url \<noteq> []))"
proof -
  let ?rows = "take TOP_N (select_tr_athing soup)"
  let ?es = "List.map_filter row_entry ?rows"
  have valid: "row \<in> set ?rows \<Longrightarrow> valid_row row" for row
    using assms(3) by blast
  have parse: "parse_top_news session html = Inr ?es"
    by (rule parse_top_news_positional(1) [OF assms(1)]) (rule valid)
  have some: "map Some ?es = map row_entry ?rows"
    by (rule map_filter_all_Some) (use valid valid_row_iff in blast)
  then have "length (map Some ?es) = length (map row_entry ?rows)"
    by simp
  with assms(2) have len: "length ?es = TOP_N"
    by simp
  have nonempty: "\<forall>(nid, url) \<in> set ?es. \<exists>i. nid = Some i \<and> i \<noteq> [] \<and> url \<noteq> []"
    if filled: "\<forall>row \<in> set ?rows. \<exists>i u. row_entry row = Some (Some i, u) \<and> i \<noteq> [] \<and> u \<noteq> []"
  proof (clarify)
    fix nid url
    assume "(nid, url) \<in> set ?es"
    then have "Some (nid, url) \<in> set (map Some ?es)" by simp
    with some obtain row where "row \<in> set ?rows" "row_entry row = Some (nid, url)"
      by auto
    with filled show "\<exists>i. nid = Some i \<and> i \<noteq> [] \<and> url \<noteq> []"
      by fastforce
  qed
  from parse len some nonempty show ?thesis by blast
qed

theorem parse_top_news_full_witness:
  "html_parser ex_session five_html = Some five_doc
   \<and> TOP_N \<le> length (select_tr_athing five_doc)
   \<and> list_all valid_row (take TOP_N (select_tr_athing five_doc))
   \<and> (\<exists>es. parse_top_news ex_session five_html = Inr es \<and> length es = TOP_N
        \<and> es = [(Some ''1'', ''http://n.example/1''), (Some ''2'', ''http://n.example/2''),
                (Some ''3'', ''http://n.example/3''), (Some ''4'', ''http://n.example/4''),
                (Some ''5'', ''http://n.example/5'')])"
proof -
  have p: "html_parser ex_session five_html = Some five_doc"
    by (simp add: ex_defs)
  have rows: "select_tr_athing five_doc =
      [row_tag ''1'' ''http://n.example/1'', row_tag ''2'' ''http://n.example/2'',
       row_tag ''3'' ''http://n.example/3'', row_tag ''4'' ''http://n.example/4'',
       row_tag ''5'' ''http://n.example/5'']"
    by (simp add: ex_defs select_tr_athing_def has_class_def is_space_def)
  have valid: "valid_row (row_tag i u)" for i u
    by (simp add: valid_row_def title_link_def find_tag_def has_class_def is_space_def
          row_tag_def link_tag_def)
  have h1: "TOP_N \<le> length (select_tr_athing five_doc)"
    by (simp add: rows TOP_N_def)
  have h2: "\<forall>row \<in> set (take TOP_N (select_tr_athing five_doc)). valid_row row"
  proof
    fix row
    assume "row \<in> set (take TOP_N (select_tr_athing five_doc))"
    then have "row \<in> set (select_tr_athing five_doc)"
      by (rule in_set_takeD)
    then show "valid_row row"
      unfolding rows using valid by auto
  qed
  have ev: "parse_top_news ex_session five_html =
      Inr [(Some ''1'', ''http://n.example/1''), (Some ''2'', ''http://n.example/2''),
           (Some ''3'', ''http://n.example/3''), (Some ''4'', ''http://n.example/4''),
           (Some ''5'', ''http://n.example/5'')]"
    by (simp add: ex_defs run_defs)
  from h2 have h2': "list_all valid_row (take TOP_N (select_tr_athing five_doc))"
    by (simp add: list_all_iff)
  from parse_top_news_full [OF p h1 h2] ev p h1 h2' show ?thesis
    by auto
qed

text \<open>
  Claim C4 as stated fails: this front page has five valid rows (as many as \<open>TOP_N\<close>),
  but only four of them are among the first five rows, so four entries are returned;
  and the first of them has no id, since its row has no id attribute.
\<close>

theorem parse_top_news_full_counterexample:
  "TOP_N = 5
   \<and> html_parser ex_session six_html = Some six_doc
   \<and> length (filter valid_row (select_tr_athing six_doc)) = 5
   \<and> parse_top_news ex_session six_html =
       Inr [(None, ''http://n.example/2''), (Some ''3'', ''http://n.example/3''),
            (Some ''4'', ''http://n.example/4''), (Some ''5'', ''http://n.example/5'')]"
  by (simp add: ex_defs run_defs valid_row_def title_link_def)

text \<open>
  Claim C8 says that rows lacking a resolvable title link are silently skipped, so
  that every front page yields a list of at most \<open>TOP_N\<close> entries. The code skips a
  row without a \<open>titleline\<close> span and one whose span holds no \<open>a\<close> tag (lemma
  \<open>parse_top_news_positional\<close>), but a title link without \<open>href\<close> among the first
  \<open>TOP_N\<close> rows is not skipped: line 31 subscripts it and raises \<open>KeyError\<close>.
\<close>

theorem title_link_without_href_raises:
  assumes "html_parser session html = Some soup"
    and "row \<in> set (take TOP_N (select_tr_athing soup))"
    and "title_link row = Some a" "tag_get a ''href'' = None"
  shows "parse_top_news session html = Inl KeyError"
proof -
  from assms(3,4) have "title_link row \<noteq> None" "\<not> valid_row row"
    by (simp_all add: valid_row_def)
  with assms(2) show ?thesis
    unfolding parse_top_news_rows [OF assms(1)] by (rule parse_rows_Inl)
qed

theorem title_link_without_href_raises_witness:
  "html_parser ex_session nohref_html = Some nohref_doc
   \<and> Tag ''tr'' [(''class'', ''athing''), (''id'', ''1'')]
       [Tag ''span'' [(''class'', ''titleline'')] [Tag ''a'' [] [NavigableString ''one'']]]
     \<in> set (take TOP_N (select_tr_athing nohref_doc))
   \<and> title_link (Tag ''tr'' [(''class'', ''athing''), (''id'', ''1'')]
       [Tag ''span'' [(''class'', ''titleline'')] [Tag ''a'' [] [NavigableString ''one'']]])
     = Some (Tag ''a'' [] [NavigableString ''one''])
   \<and> tag_get (Tag ''a'' [] [NavigableString ''one'']) ''href'' = None
   \<and> parse_top_news ex_session nohref_html = Inl KeyError
   \<and> fst (main [with_front nohref_html] w0) = Inl KeyError"
proof -
  let ?a = "Tag ''a'' [] [NavigableString ''one'']"
  let ?row = "Tag ''tr'' [(''class'', ''athing''), (''id'', ''1'')]
       [Tag ''span'' [(''class'', ''titleline'')] [?a]]"
  have p: "html_parser ex_session nohref_html = Some nohref_doc"
    by (simp add: ex_defs)
  have h1: "?row \<in> set (take TOP_N (select_tr_athing nohref_doc))"
    by (simp add: ex_defs select_tr_athing_def has_class_def is_space_def TOP_N_def)
  have h2: "title_link ?row = Some ?a"
    by (simp add: title_link_def find_tag_def has_class_def is_space_def)
  have h3: "tag_get ?a ''href'' = None"
    by simp
  have run: "fst (main [with_front nohref_html] w0) = Inl KeyError"
    by (simp add: ex_defs run_defs Let_def)
  from title_link_without_href_raises [OF p h1 h2 h3] p h1 h2 h3 run show ?thesis
    by simp
qed

section \<open>The seen set\<close>

text \<open>
  Claim C3, as amended. After any number of cycles that ended normally, counted from
  the start of \<open>main\<close>, the seen set is exactly the set of the ids whose processing was
  begun (line 121), whatever their downloads fetched; an id of the seen set is in no
  later \<open>new_news\<close>, whatever the front page lists; and in all later cycles, however
  they end, no id of the seen set is processed again.
\<close>

theorem seen_set_invariant:
  assumes "main_loop earlier {} w = (Inr seen1, w1)" and "out w = []"
  shows "seen1 = set (processed w1)
     \<and> (\<forall>nid \<in> seen1. \<forall>top_news. nid \<notin> fst ` set (new_news_of top_news seen1))
     \<and> (\<forall>nid \<in> seen1. count_list (processed (snd (main_loop later seen1 w1))) nid
                         = count_list (processed w1) nid)
     \<and> main (earlier @ later) w = main_loop later seen1 w1"
proof (intro conjI ballI allI)
  from assms(2) have "processed w = []" by (simp add: processed_def)
  with main_loop_Inr [OF assms(1)] show "seen1 = set (processed w1)" by auto
next
  fix nid top_news
  assume "nid \<in> seen1"
  with new_news_of_fresh [of top_news seen1] show "nid \<notin> fst ` set (new_news_of top_news seen1)"
    by auto
next
  fix nid
  assume "nid \<in> seen1"
  then show "count_list (processed (snd (main_loop later seen1 w1))) nid
      = count_list (processed w1) nid"
    by (rule main_loop_count)
next
  show "main (earlier @ later) w = main_loop later seen1 w1"
    using assms(1) by (simp add: main_def main_loop_append)
qed

theorem seen_set_invariant_witness:
  "main_loop [ex_session] {} w0 = (Inr {Some ''1'', Some ''2''}, snd (main_loop [ex_session] {} w0))
   \<and> out w0 = []
   \<and> {Some ''1'', Some ''2''} = set (processed (snd (main_loop [ex_session] {} w0)))
   \<and> processed (snd (main_loop [ex_session] {} w0)) = [Some ''1'', Some ''2'']
   \<and> count_list (processed (snd (main ([ex_session] @ [ex_session, with_front dup_html]) w0)))
        (Some ''1'') = 1
   \<and> count_list (processed (snd (main ([ex_session] @ [ex_session, with_front dup_html]) w0)))
        (Some ''2'') = 1"
proof -
  have r: "fst (main_loop [ex_session] {} w0) = Inr {Some ''1'', Some ''2''}"
    by (simp add: ex_defs run_defs Let_def insert_commute)
  have h1: "main_loop [ex_session] {} w0 =
      (Inr {Some ''1'', Some ''2''}, snd (main_loop [ex_session] {} w0))"
    using r by (simp add: prod_eq_iff)
  have h2: "out w0 = []"
    by (simp add: w0_def)
  have p: "processed (snd (main_loop [ex_session] {} w0)) = [Some ''1'', Some ''2'']"
    by (simp add: ex_defs run_defs Let_def processed_def)
  note t = seen_set_invariant [OF h1 h2, of "[ex_session, with_front dup_html]"]
  from t have a: "{Some ''1'', Some ''2''} = set (processed (snd (main_loop [ex_session] {} w0)))"
    by blast
  from t have run: "main ([ex_session] @ [ex_session, with_front dup_html]) w0 =
      main_loop [ex_session, with_front dup_html] {Some ''1'', Some ''2''}
        (snd (main_loop [ex_session] {} w0))"
    by blast
  from t have c: "count_list (processed (snd (main_loop [ex_session, with_front dup_html]
        {Some ''1'', Some ''2''} (snd (main_loop [ex_session] {} w0))))) nid
      = count_list (processed (snd (main_loop [ex_session] {} w0))) nid"
    if "nid \<in> {Some ''1'', Some ''2''}" for nid
    using that by blast
  have "count_list (processed (snd (main ([ex_session] @ [ex_session, with_front dup_html]) w0)))
      (Some ''1'') = 1"
    unfolding run using c [of "Some ''1''"] unfolding p by simp
  moreover have "count_list (processed (snd (main ([ex_session] @ [ex_session, with_front dup_html]) w0)))
      (Some ''2'') = 1"
    unfolding run using c [of "Some ''2''"] unfolding p by simp
  ultimately show ?thesis
    using h1 h2 a p by blast
qed

text \<open>
  Claim C3 as stated fails: on a front page that lists the id 1 in two of its rows,
  both rows are new when line 117 filters them, and the id is processed twice in
  the same run.
\<close>

theorem seen_set_invariant_counterexample:
  "parse_top_news (with_front dup_html) dup_html =
       Inr [(Some ''1'', ''http://n.example/1''), (Some ''1'', ''http://n.example/1'')]
   \<and> fst (main [with_front dup_html] w0) = Inr {Some ''1''}
   \<and> processed (snd (main [with_front dup_html] w0)) = [Some ''1'', Some ''1'']"
  by (simp add: ex_defs run_defs Let_def processed_def)

section \<open>What ends a cycle, and what does not\<close>

text \<open>
  Claim C2, as amended. Let every cycle of a run be such that every write succeeds,
  that the front page, when it is fetched with a body, is parsed without exception
  into entries that each have an id, and that the thread page of each of these entries
  is fetched and accepted by the parser. Then every cycle ends normally and the loop
  goes on to the next cycle, whatever the fetches of the front page, of the primary
  documents and of the fan-out links return (a failure, an empty body or a page).
\<close>

theorem cycles_complete:
  assumes "\<And>session. session \<in> set sessions \<Longrightarrow>
      (\<forall>p. makedirs_ok session p \<and> write_ok session p)
      \<and> (\<forall>html. http_get session BASE_URL None = Inr html \<and> html \<noteq> [] \<longrightarrow>
            (\<exists>top_news. parse_top_news session html = Inr top_news
               \<and> (\<forall>(nid, url) \<in> set top_news. \<exists>i page soup. nid = Some i
                     \<and> http_get session (BASE_URL @ ''item?id='' @ i) (Some headers) = Inr page
                     \<and> html_parser session page = Some soup)))"
  shows "\<exists>seen' w'. main_loop sessions seen w = (Inr seen', w')"
  using assms
proof (induction sessions arbitrary: seen w)
  case Nil
  show ?case by simp
next
  case (Cons s sessions)
  have good: "\<And>p. makedirs_ok s p" "\<And>p. write_ok s p"
    and front: "\<And>html. http_get s BASE_URL None = Inr html \<Longrightarrow> html \<noteq> [] \<Longrightarrow>
       \<exists>top_news. parse_top_news s html = Inr top_news
         \<and> (\<forall>(nid, url) \<in> set top_news. \<exists>i page soup. nid = Some i
               \<and> http_get s (BASE_URL @ ''item?id='' @ i) (Some headers) = Inr page
               \<and> html_parser s page = Some soup)"
    using Cons.prems [of s] by simp_all
  have cycle: "\<exists>seen1 w1. main_cycle s seen w = (Inr seen1, w1)"
  proof (cases rule: main_cycle_cases [of s])
    case (skip e)
    then show ?thesis by (simp add: main_cycle_skip)
  next
    case (parse_error html e)
    with front [of html] show ?thesis by auto
  next
    case (parsed html top_news)
    with front [of html]
    have threads: "\<And>nid url. (nid, url) \<in> set top_news \<Longrightarrow>
        \<exists>i page soup. nid = Some i
          \<and> http_get s (BASE_URL @ ''item?id='' @ i) (Some headers) = Inr page
          \<and> html_parser s page = Some soup"
      by auto
    let ?new = "new_news_of top_news seen"
    let ?w1 = "print (News_found (length ?new)) (print Main_page_parsing w)"
    have "\<exists>seen' w'. for_new_news s ?new seen ?w1 = (Inr seen', w')"
      by (rule for_new_news_ok [OF good]) (use threads in \<open>auto simp: new_news_of_def\<close>)
    then show ?thesis
      by (auto simp: main_cycle_parsed [OF parsed])
  qed
  then obtain seen1 w1 where c: "main_cycle s seen w = (Inr seen1, w1)" by blast
  have "\<exists>seen' w'. main_loop sessions seen1 w1 = (Inr seen', w')"
    by (rule Cons.IH) (use Cons.prems in auto)
  with c show ?case by simp
qed

theorem cycles_complete_witness:
  "http_get ex_session BASE_URL None = Inr front_html
   \<and> parse_top_news ex_session front_html =
       Inr [(Some ''1'', ''http://n.example/1''), (Some ''2'', ''http://n.example/2'')]
   \<and> http_get ex_session ''http://b.example/x'' None = Inl ''404''
   \<and> http_get empty_front BASE_URL None = Inr []
   \<and> (\<exists>seen' w'. main_loop [ex_session, empty_front, ex_session] {} w0 = (Inr seen', w'))"
proof -
  have front: "http_get ex_session BASE_URL None = Inr front_html"
    and b: "http_get ex_session ''http://b.example/x'' None = Inl ''404''"
    and empty: "http_get empty_front BASE_URL None = Inr []"
    by (simp_all add: ex_session_def empty_front_def with_front_def ex_get_def BASE_URL_def)
  have parse: "parse_top_news ex_session front_html =
      Inr [(Some ''1'', ''http://n.example/1''), (Some ''2'', ''http://n.example/2'')]"
    by (simp add: ex_defs run_defs)
  have threads: "http_get ex_session (BASE_URL @ ''item?id='' @ ''1'') (Some headers) = Inr thread_html"
    "http_get ex_session (BASE_URL @ ''item?id='' @ ''2'') (Some headers) = Inr ''no links here''"
    "html_parser ex_session thread_html = Some thread_doc"
    "html_parser ex_session ''no links here'' = Some (doc_root [NavigableString ''no links here''])"
    by (simp_all add: ex_defs BASE_URL_def)
  have ok: "makedirs_ok ex_session p \<and> write_ok ex_session p"
    "makedirs_ok empty_front p \<and> write_ok empty_front p" for p
    by (simp_all add: ex_session_def empty_front_def with_front_def)
  have good: "(\<forall>p. makedirs_ok session p \<and> write_ok session p)
      \<and> (\<forall>html. http_get session BASE_URL None = Inr html \<and> html \<noteq> [] \<longrightarrow>
            (\<exists>top_news. parse_top_news session html = Inr top_news
               \<and> (\<forall>(nid, url) \<in> set top_news. \<exists>i page soup. nid = Some i
                     \<and> http_get session (BASE_URL @ ''item?id='' @ i) (Some headers) = Inr page
                     \<and> html_parser session page = Some soup)))"
    if "session \<in> set [ex_session, empty_front, ex_session]" for session
  proof -
    from that consider "session = ex_session" | "session = empty_front" by auto
    then show ?thesis
    proof cases
      case 1
      with front parse threads ok(1) show ?thesis by auto
    next
      case 2
      with empty ok(2) show ?thesis by auto
    qed
  qed
  from cycles_complete [of "[ex_session, empty_front, ex_session]" "{}" w0, OF good]
  have "\<exists>seen' w'. main_loop [ex_session, empty_front, ex_session] {} w0 = (Inr seen', w')"
    by blast
  with front parse b empty show ?thesis by blast
qed

text \<open>
  Claim C2 as stated fails: a write that fails is a failure of a component, and it
  ends the crawl loop in its first cycle; the second cycle is never run and the loop
  never sleeps.
\<close>

theorem cycles_complete_counterexample:
  "\<not> write_ok disk_full ''data/1/news.html''
   \<and> fst (main_cycle disk_full {} w0) = Inl OSError
   \<and> fst (main [disk_full, ex_session] w0) = Inl OSError
   \<and> slept (snd (main [disk_full, ex_session] w0)) = 0
   \<and> out (snd (main [disk_full, ex_session] w0)) =
       [Main_page_parsing, News_found 2, Downloading_news (Some ''1'') ''http://n.example/1'']"
  by (simp add: ex_defs run_defs Let_def)

section \<open>A write that fails\<close>

text \<open>
  Claim C5, as amended. A failure to write one document of an entry (its folder cannot
  be made, or the file cannot be written) is not recovered and not logged: \<open>save_html\<close>
  raises \<open>OSError\<close> and prints nothing; if the document is \<open>news.html\<close>, or the file of
  a link whose fetch brought a body, \<open>download_news_and_comments\<close> raises \<open>OSError\<close> as
  well; and a cycle that processes such an entry ends with an exception, which ends
  the crawl loop: the cycles after it are not run. Here \<open>links\<close> are the entry's links
  in the order the set iterates them, whichever that is.
\<close>

theorem store_failure_propagates:
  assumes fails: "\<not> makedirs_ok session (os_path_join NEWS_DIR nid)
                  \<or> \<not> write_ok session (doc_path nid filename)"
    and primary: "http_get session url None = Inr body" "body \<noteq> []"
    and doc: "filename = ''news.html''
              \<or> (\<exists>i<length links. filename = comment_name i
                    \<and> (\<exists>html. http_get session (links ! i) None = Inr html \<and> html \<noteq> []))"
  shows "fst (save_html session (os_path_join NEWS_DIR nid) filename content w) = Inl OSError
     \<and> out (snd (save_html session (os_path_join NEWS_DIR nid) filename content w)) = out w
     \<and> fst (download_news_and_comments session (Some nid) url links w) = Inl OSError
     \<and> (http_get session BASE_URL None = Inr front \<and> front \<noteq> []
          \<and> parse_top_news session front = Inr top_news
          \<and> (Some nid, url) \<in> set (new_news_of top_news seen)
          \<and> fst (get_comments_links session (Some nid) w) = Inr links
        \<longrightarrow> (\<exists>e. fst (main_cycle session seen w) = Inl e)
            \<and> main_loop (session # later) seen w = main_cycle session seen w)"
proof -
  let ?folder = "os_path_join NEWS_DIR nid"
  from fails have fails': "\<not> makedirs_ok session ?folder \<or> \<not> write_ok session (os_path_join ?folder filename)"
    by (simp add: doc_path_def)
  have save: "fst (save_html session ?folder filename content w') = Inl OSError" for content w'
    using save_html_fail [OF fails'] by blast
  have dnc: "fst (download_news_and_comments session (Some nid) url links w') = Inl OSError" for w'
  proof -
    note run = dnc_fetched [OF primary, of nid links w']
    obtain r w2 where sv: "save_html session ?folder ''news.html'' body w' = (r, w2)" by force
    have "\<exists>e. fst (download_news_and_comments session (Some nid) url links w') = Inl e"
    proof (cases r)
      case (Inl e)
      with run sv show ?thesis by simp
    next
      case (Inr x)
      with sv save [of body w'] have "filename \<noteq> ''news.html''" by auto
      with doc obtain i html where i: "i < length links" "filename = comment_name i"
        and link: "http_get session (links ! i) None = Inr html" "html \<noteq> []"
        by blast
      from i have mem: "(links ! i, ?folder, filename) \<in> set (tasks_of ?folder links)"
        by (auto simp: set_tasks_of)
      have "fst (gather session (tasks_of ?folder links)
          (print (Links_found nid (length links)) w2)) = Inl OSError"
        by (rule gather_raises [OF mem link fails'])
      moreover from i have "links \<noteq> []" by auto
      ultimately show ?thesis using run sv Inr by simp
    qed
    then obtain e where e: "fst (download_news_and_comments session (Some nid) url links w') = Inl e"
      by blast
    from dnc_error [OF e] e show ?thesis by simp
  qed
  have cycle: "(\<exists>e. fst (main_cycle session seen w) = Inl e)
      \<and> main_loop (session # later) seen w = main_cycle session seen w"
    if front: "http_get session BASE_URL None = Inr front" "front \<noteq> []"
      "parse_top_news session front = Inr top_news"
      and mem: "(Some nid, url) \<in> set (new_news_of top_news seen)"
      and links: "fst (get_comments_links session (Some nid) w) = Inr links"
  proof -
    let ?new = "new_news_of top_news seen"
    let ?w1 = "print (News_found (length ?new)) (print Main_page_parsing w)"
    have "\<exists>e. fst (download_news_and_comments session (Some nid) url links' w'') = Inl e"
      if "fst (get_comments_links session (Some nid) w') = Inr links'" for w' links' w''
    proof -
      from that links get_comments_links_result [of session "Some nid" w' w]
      have "links' = links" by simp
      with dnc [of w''] show ?thesis by simp
    qed
    with mem have "\<exists>e. fst (for_new_news session ?new seen ?w1) = Inl e"
      by (rule for_new_news_raises)
    then obtain e where e: "fst (for_new_news session ?new seen ?w1) = Inl e" by blast
    from mem have "?new \<noteq> []" by auto
    obtain w2 where "for_new_news session ?new seen ?w1 = (Inl e, w2)"
      using e by (cases "for_new_news session ?new seen ?w1") simp
    with \<open>?new \<noteq> []\<close> have raised: "fst (main_cycle session seen w) = Inl e"
      by (simp add: main_cycle_parsed [OF front])
    then have "main_loop (session # later) seen w = main_cycle session seen w"
      by (cases "main_cycle session seen w") simp
    with raised show ?thesis by blast
  qed
  have "out (snd (save_html session ?folder filename content w)) = out w"
    by simp
  with save [of content w] dnc [of w] cycle show ?thesis by blast
qed

theorem store_failure_propagates_witness:
  "\<not> write_ok comment_unwritable (doc_path ''1'' (comment_name 0))
   \<and> http_get comment_unwritable ''http://n.example/1'' None = Inr ''news one''
   \<and> fst (get_comments_links comment_unwritable (Some ''1'') w0) =
       Inr [''http://b.example/x'', ''https://a.example/x'', ''http://c.example/x'']
   \<and> http_get comment_unwritable ''http://b.example/x'' None = Inr ''page B''
   \<and> fst (save_html comment_unwritable (os_path_join NEWS_DIR ''1'') (comment_name 0) ''page B'' w0)
       = Inl OSError
   \<and> out (snd (save_html comment_unwritable (os_path_join NEWS_DIR ''1'') (comment_name 0)
        ''page B'' w0)) = out w0
   \<and> fst (download_news_and_comments comment_unwritable (Some ''1'') ''http://n.example/1''
        [''http://b.example/x'', ''https://a.example/x'', ''http://c.example/x''] w0) = Inl OSError
   \<and> (\<exists>e. fst (main_cycle comment_unwritable {} w0) = Inl e)
   \<and> main_loop [comment_unwritable, ex_session] {} w0 = main_cycle comment_unwritable {} w0"
proof -
  let ?links = "[''http://b.example/x'', ''https://a.example/x'', ''http://c.example/x'']"
  let ?top = "[(Some ''1'', ''http://n.example/1''), (Some ''2'', ''http://n.example/2'')]"
  have nw: "\<not> write_ok comment_unwritable (doc_path ''1'' (comment_name 0))"
    unfolding doc_paths by (simp add: comment_unwritable_def ex_session_def)
  then have fails: "\<not> makedirs_ok comment_unwritable (os_path_join NEWS_DIR ''1'')
      \<or> \<not> write_ok comment_unwritable (doc_path ''1'' (comment_name 0))" ..
  have primary: "http_get comment_unwritable ''http://n.example/1'' None = Inr ''news one''"
    and ne: "''news one'' \<noteq> []"
    and link: "http_get comment_unwritable ''http://b.example/x'' None = Inr ''page B''"
    and front: "http_get comment_unwritable BASE_URL None = Inr front_html"
    and fne: "front_html \<noteq> []"
    by (simp_all add: comment_unwritable_def ex_session_def ex_get_def BASE_URL_def
          front_html_def row_html_def)
  have doc: "comment_name 0 = ''news.html''
      \<or> (\<exists>i<length ?links. comment_name 0 = comment_name i
            \<and> (\<exists>html. http_get comment_unwritable (?links ! i) None = Inr html \<and> html \<noteq> []))"
    using link by (intro disjI2 exI [of _ 0]) simp
  have parse: "parse_top_news comment_unwritable front_html = Inr ?top"
    by (simp add: ex_defs run_defs)
  have new: "(Some ''1'', ''http://n.example/1'') \<in> set (new_news_of ?top {})"
    by (simp add: new_news_of_def)
  have extracted: "fst (get_comments_links comment_unwritable (Some ''1'') w0) = Inr ?links"
    by (simp add: ex_defs run_defs Let_def)
  from store_failure_propagates [OF fails primary ne doc, of "''page B''" w0 front_html ?top "{}"
      "[ex_session]"] front fne parse new extracted nw primary link
  show ?thesis by simp
qed

text \<open>
  Claim C5 as stated fails: one comment file that cannot be written ends the run with
  \<open>OSError\<close> in its first cycle, whichever link the set iterates first (all three can
  be fetched); entry 2 of that cycle is never processed and the second cycle is never
  run.
\<close>

theorem store_failure_propagates_counterexample:
  "\<not> write_ok comment_unwritable ''data/1/comment_1.html''
   \<and> fst (main [comment_unwritable, ex_session] w0) = Inl OSError
   \<and> processed (snd (main [comment_unwritable, ex_session] w0)) = [Some ''1'']
   \<and> files (snd (main [comment_unwritable, ex_session] w0)) ''data/2/news.html'' = None
   \<and> slept (snd (main [comment_unwritable, ex_session] w0)) = 0"
proof -
  have names: "comment_name 0 = ''comment_1.html''" "comment_name (Suc 0) = ''comment_2.html''"
    "comment_name 2 = ''comment_3.html''"
    by (rule comment_name_0 comment_name_Suc_0 comment_name_2)+
  have run: "main [comment_unwritable, ex_session] w0 =
      (Inl OSError,
       \<lparr>files = [''data/1/news.html'' \<mapsto> ''news one''], dirs = {''data/1''},
        out = [Main_page_parsing, News_found 2,
               Downloading_news (Some ''1'') ''http://n.example/1'', Links_found ''1'' 3],
        slept = 0\<rparr>)"
    by (simp add: ex_defs main_def main_cycle_def new_news_of_def get_comments_links_def
          download_news_and_comments_def download_and_save_def save_html_def fetch_def
          parse_top_news_def BeautifulSoup_def select_tr_athing_def find_all_a_href_def
          find_tag_def has_class_def is_space_def tag_getitem_def set_add_def set_iter_def
          startswith_def
          os_path_join_def enumerate_list_def tasks_of_def names str_opt_def print_def sleep_def
          BASE_URL_def TOP_N_def NEWS_DIR_def CRAWL_INTERVAL_def headers_def Let_def
          upt_rec [of 0] upt_rec [of 1] upt_rec [of 2] upt_rec [of 3])
  show ?thesis
    unfolding run by (simp add: comment_unwritable_def ex_session_def processed_def)
qed

end
